theory Spec2Isabelle
  imports Main "HOL-Library.Word" "HOL-Library.Sublist"
begin

section \<open>Pointers, bytes and the allocator\<close>

text \<open>
  The cache of \<^verbatim>\<open>libcache.c\<close> couples three structures through raw pointers: the LRU
  list of cache nodes, the hash index of \<^verbatim>\<open>hash.c\<close> and a slab pool.  The embedding keeps
  the pointers: an address is a natural number, a C pointer is an optional address with
  \<open>None\<close> for \<^verbatim>\<open>NULL\<close>, and every \<^verbatim>\<open>malloc\<close>'ed node lives in a store (a map from
  addresses to the node's contents) from which \<^verbatim>\<open>free\<close> removes it.  \<^verbatim>\<open>malloc\<close> hands out
  the next unused address of a counter and is assumed to succeed.

  A function of the model returns \<open>None\<close> where the C program has no defined behaviour:
  it dereferences \<^verbatim>\<open>NULL\<close> or a freed node, writes outside an array, copies behind the end
  of a buffer, or unlinks a node from a list that does not hold it.
\<close>

type_synonym addr = nat
type_synonym pointer = "addr option"
type_synonym byte = "8 word"
type_synonym u32 = "32 word"

text \<open>\<^verbatim>\<open>memcpy(dst, src, n)\<close> on the contents of two buffers: the first \<open>n\<close> bytes of the
  destination become the first \<open>n\<close> bytes of the source, and the destination keeps its
  size.  Reading behind the end of the source or writing behind the end of the
  destination has no defined behaviour.\<close>
definition memcpy :: "byte list \<Rightarrow> byte list \<Rightarrow> nat \<Rightarrow> byte list option" where
  "memcpy dst src n =
     (if n \<le> length dst \<and> n \<le> length src then Some (take n src @ drop n dst) else None)"

text \<open>\<^verbatim>\<open>memset(buf, v, n)\<close> on the contents of a buffer: its first \<open>n\<close> bytes become \<open>v\<close>.\<close>
definition memset :: "byte list \<Rightarrow> byte \<Rightarrow> nat \<Rightarrow> byte list option" where
  "memset buf v n = (if n \<le> length buf then Some (replicate n v @ drop n buf) else None)"

section \<open>The doubly linked list (\<^verbatim>\<open>list.h\<close>)\<close>

text \<open>
  Only the header \<^verbatim>\<open>list.h\<close> is part of the sources; the bodies of the list functions are
  not.  A \<^verbatim>\<open>list_t\<close> is modelled by the sequence of its nodes from head to tail, so that
  \<^verbatim>\<open>total_nodes\<close> is the length of the sequence.
\<close>

text \<open>Modelled from the spec: \<^verbatim>\<open>list_push_front\<close> of the missing \<^verbatim>\<open>list.c\<close>, O(1) push-front.\<close>
definition list_push_front :: "'a list \<Rightarrow> 'a \<Rightarrow> 'a list" where
  "list_push_front l node = node # l"

text \<open>Modelled from the spec: \<^verbatim>\<open>list_push_back\<close> of the missing \<^verbatim>\<open>list.c\<close>, O(1) push-back.\<close>
definition list_push_back :: "'a list \<Rightarrow> 'a \<Rightarrow> 'a list" where
  "list_push_back l node = l @ [node]"

text \<open>Modelled from the spec: \<^verbatim>\<open>list_pop_front\<close> of the missing \<^verbatim>\<open>list.c\<close>; it returns the
  removed head node, \<^verbatim>\<open>NULL\<close> on an empty list, and the remaining list.\<close>
definition list_pop_front :: "'a list \<Rightarrow> 'a option \<times> 'a list" where
  "list_pop_front l = (case l of [] \<Rightarrow> (None, []) | node # rest \<Rightarrow> (Some node, rest))"

text \<open>Modelled from the spec: \<^verbatim>\<open>list_pop_back\<close> of the missing \<^verbatim>\<open>list.c\<close>; it returns the
  removed tail node, \<^verbatim>\<open>NULL\<close> on an empty list, and the remaining list.\<close>
definition list_pop_back :: "'a list \<Rightarrow> 'a option \<times> 'a list" where
  "list_pop_back l = (if l = [] then (None, []) else (Some (last l), butlast l))"

text \<open>Modelled from the spec: \<^verbatim>\<open>list_remove\<close> of the missing \<^verbatim>\<open>list.c\<close>.  The spec says that
  it "assumes the node is a member; it unlinks without searching and decrements count";
  on a node that is not a member the model has no defined result.\<close>
definition list_remove :: "'a list \<Rightarrow> 'a \<Rightarrow> 'a list option" where
  "list_remove l node = (if node \<in> set l then Some (remove1 node l) else None)"

text \<open>Modelled from the spec: the traversals of the missing \<^verbatim>\<open>list.c\<close>.  The visitor
  "returns 0 to stop (current node is the result), 1 to continue, negative to abort with
  no result.  Traversal returns the first node at which the visitor stopped, else
  nothing."  The spec names no other return value; the model continues on every positive
  one.  A visitor that has no defined result (\<open>None\<close>) leaves the traversal without one.\<close>
fun foreach :: "('a \<Rightarrow> int option) \<Rightarrow> 'a list \<Rightarrow> 'a option option" where
  "foreach cb [] = Some None"
| "foreach cb (node # rest) =
     (case cb node of
        None \<Rightarrow> None
      | Some r \<Rightarrow> if r = 0 then Some (Some node)
                 else if r < 0 then Some None
                 else foreach cb rest)"

definition list_foreach :: "'a list \<Rightarrow> ('a \<Rightarrow> int option) \<Rightarrow> 'a option option" where
  "list_foreach l traverse_node_cb = foreach traverse_node_cb l"

definition list_reverse_foreach :: "'a list \<Rightarrow> ('a \<Rightarrow> int option) \<Rightarrow> 'a option option" where
  "list_reverse_foreach l traverse_node_cb = foreach traverse_node_cb (rev l)"

definition list_foreach_with_usr_data ::
  "'a list \<Rightarrow> ('a \<Rightarrow> 'u \<Rightarrow> int option) \<Rightarrow> 'u \<Rightarrow> 'a option option" where
  "list_foreach_with_usr_data l traverse_node_cb usr_data =
     foreach (\<lambda>node. traverse_node_cb node usr_data) l"

section \<open>The hash index (\<^verbatim>\<open>hash.c\<close>)\<close>

text \<open>
  The header \<^verbatim>\<open>hash.h\<close> with the declarations of \<^verbatim>\<open>hash_t\<close>, \<^verbatim>\<open>bucket_t\<close> and
  \<^verbatim>\<open>hash_data_t\<close> is not part of the sources; the records below hold the fields that
  \<^verbatim>\<open>hash.c\<close> reads and writes.  \<^verbatim>\<open>buckets_count\<close> has the type \<^verbatim>\<open>u32\<close> that
  \<^verbatim>\<open>get_bucket_number\<close> returns and that \<^verbatim>\<open>hash_code\<close> is compared with.  The nodes of
  the bucket lists are \<^verbatim>\<open>malloc\<close>'ed; \<open>hnodes\<close> is their store and \<open>hnext\<close> the next
  address \<^verbatim>\<open>malloc\<close> returns.  A key is the sequence of bytes its pointer addresses.
\<close>

record hash_data_t =
  hd_key :: "byte list"
  cache_node_ptr :: pointer

record bucket_t =
  list_count :: int
  blist :: "addr list option"

record hash_t =
  bits :: u32
  buckets_count :: u32
  bucket_list :: "bucket_t list"
  entry_count :: int
  h_key_size :: nat
  kcmp :: "byte list \<Rightarrow> byte list \<Rightarrow> int"
  k2num :: "byte list \<Rightarrow> u32"
  hnodes :: "addr \<rightharpoonup> hash_data_t"
  hnext :: addr

definition MAX_BUCKETS :: u32 where
  "MAX_BUCKETS = 0xffffffff"

definition GOLDEN_RATIO_PRIME_32 :: u32 where
  "GOLDEN_RATIO_PRIME_32 = 0x9e370001"

text \<open>\<^verbatim>\<open>while (val >>= 1 != 0) count++;\<close> parses as \<^verbatim>\<open>val >>= (1 != 0)\<close>: each test shifts
  \<open>val\<close> right by one and goes on while the shifted value is not zero.\<close>
function get_bits_loop :: "u32 \<Rightarrow> u32 \<Rightarrow> u32" where
  "get_bits_loop val count =
     (let val' = drop_bit 1 val in
      if val' \<noteq> 0 then get_bits_loop val' (count + 1) else count)"
  by pat_completeness auto
termination
proof (relation "measure (\<lambda>(val, count). unat val)")
  show "wf (measure (\<lambda>(val, count). unat val))" by simp
next
  fix val count :: u32 and x :: u32
  assume x: "x = drop_bit 1 val" and nz: "x \<noteq> 0"
  have "unat (drop_bit 1 val) = unat val div 2"
    by (simp add: drop_bit_eq_div unat_div)
  moreover have "unat val \<noteq> 0"
    using x nz by (auto simp: unat_eq_0)
  ultimately show "((x, count + 1), (val, count)) \<in> measure (\<lambda>(val, count). unat val)"
    using x by simp
qed

definition get_bits :: "u32 \<Rightarrow> u32" where
  "get_bits val = get_bits_loop val 1"

definition get_bucket_number :: "u32 \<Rightarrow> u32" where
  "get_bucket_number val = (if val \<ge> 32 then MAX_BUCKETS else 2 ^ unat val - 1)"

text \<open>\<^verbatim>\<open>hash_32\<close> multiplies in \<^verbatim>\<open>unsigned long\<close> and stores the product in a \<^verbatim>\<open>u32\<close>, which is
  the product modulo \<open>2^32\<close>.  The shift count \<^verbatim>\<open>32 - bits\<close> is below 32 for the widths from
  1 to 32 that \<^verbatim>\<open>get_bits\<close> returns.\<close>
definition hash_32 :: "u32 \<Rightarrow> u32 \<Rightarrow> u32" where
  "hash_32 val bts = (let hash = val * GOLDEN_RATIO_PRIME_32 in drop_bit (unat (32 - bts)) hash)"

definition key_to_hash :: "hash_t \<Rightarrow> byte list \<Rightarrow> u32" where
  "key_to_hash hash key = (let value = k2num hash key in hash_32 value (bits hash))"

text \<open>\<^verbatim>\<open>find_node\<close> is the visitor of \<^verbatim>\<open>hash_find\<close>: it hands the comparator's result to the
  traversal as it is.  The traversal never passes \<^verbatim>\<open>NULL\<close>; a node that is not in the
  store has been freed.\<close>
definition find_node :: "hash_t \<Rightarrow> addr \<Rightarrow> byte list \<times> (byte list \<Rightarrow> byte list \<Rightarrow> int) \<Rightarrow> int option" where
  "find_node hash node to_find_node =
     (case hnodes hash node of
        None \<Rightarrow> None
      | Some hdata \<Rightarrow> Some ((snd to_find_node) (fst to_find_node) (hd_key hdata)))"

text \<open>\<^verbatim>\<open>free_node\<close> releases the key copy, the \<^verbatim>\<open>hash_data_t\<close> and the node; the result is
  the store without the node.\<close>
definition free_node :: "hash_t \<Rightarrow> addr \<Rightarrow> (addr \<rightharpoonup> hash_data_t) option" where
  "free_node hash node =
     (case hnodes hash node of
        None \<Rightarrow> None
      | Some hdata \<Rightarrow> Some ((hnodes hash)(node := None)))"

definition empty_bucket :: bucket_t where
  "empty_bucket = \<lparr>list_count = 0, blist = None\<rparr>"

text \<open>The loop of \<^verbatim>\<open>hash_init\<close>: \<^verbatim>\<open>int i = 0; while (i <= hash->buckets_count) { ...; i++; }\<close>.
  The comparison converts the \<^verbatim>\<open>int\<close> \<open>i\<close> to \<^verbatim>\<open>u32\<close>.  A write outside the allocated array
  and the increment of \<open>i\<close> at \<^verbatim>\<open>INT_MAX\<close> have no defined behaviour.\<close>
function hash_init_loop :: "int \<Rightarrow> u32 \<Rightarrow> bucket_t list \<Rightarrow> bucket_t list option" where
  "hash_init_loop i bc bl =
     (if (word_of_int i :: u32) \<le> bc then
        (if 0 \<le> i \<and> nat i < length bl then
           (if 2147483647 \<le> i then None
            else hash_init_loop (i + 1) bc (bl[nat i := empty_bucket]))
         else None)
      else Some bl)"
  by pat_completeness auto
termination
  by (relation "measure (\<lambda>(i, bc, bl). nat (2147483647 - i))") auto

text \<open>\<^verbatim>\<open>hash_init\<close>.  \<^verbatim>\<open>max_entry\<close> is an \<^verbatim>\<open>int\<close> that \<^verbatim>\<open>get_bits\<close> receives as \<^verbatim>\<open>u32\<close>.
  The array is allocated with \<^verbatim>\<open>(hash->buckets_count + 1) * sizeof(bucket_t)\<close> bytes, a sum
  in \<^verbatim>\<open>u32\<close>; its buckets are uninitialised until the loop writes them.\<close>
definition hash_init ::
  "int \<Rightarrow> nat \<Rightarrow> (byte list \<Rightarrow> byte list \<Rightarrow> int) \<Rightarrow> (byte list \<Rightarrow> u32) \<Rightarrow> hash_t option" where
  "hash_init max_entry key_size key_cmp key_to_num =
     (let bts = get_bits (word_of_int max_entry);
          bc = get_bucket_number bts
      in case hash_init_loop 0 bc (replicate (unat (bc + 1)) empty_bucket) of
           None \<Rightarrow> None
         | Some bl \<Rightarrow>
             Some \<lparr>bits = bts, buckets_count = bc, bucket_list = bl, entry_count = 0,
                   h_key_size = key_size, kcmp = key_cmp, k2num = key_to_num,
                   hnodes = Map.empty, hnext = 0\<rparr>)"

text \<open>\<^verbatim>\<open>&(hash->bucket_list[hash_code])\<close>, undefined behind the allocated array.\<close>
definition bucket_at :: "hash_t \<Rightarrow> u32 \<Rightarrow> bucket_t option" where
  "bucket_at hash hash_code =
     (if unat hash_code < length (bucket_list hash)
      then Some (bucket_list hash ! unat hash_code) else None)"

text \<open>\<^verbatim>\<open>hash_add\<close> returns the new node (\<^verbatim>\<open>NULL\<close> on an error) and the table.  The key copy
  is a \<^verbatim>\<open>malloc\<close>'ed buffer of \<^verbatim>\<open>key_size\<close> bytes that \<^verbatim>\<open>memset\<close> zeroes and \<^verbatim>\<open>memcpy\<close> then
  fills with \<^verbatim>\<open>key_size\<close> bytes of the key.\<close>
definition hash_add :: "hash_t \<Rightarrow> byte list option \<Rightarrow> pointer \<Rightarrow> (pointer \<times> hash_t) option" where
  "hash_add hash key cache_node =
     (case key of
        None \<Rightarrow> Some (None, hash)
      | Some k \<Rightarrow>
          let hash_code = key_to_hash hash k in
          if hash_code > buckets_count hash then Some (None, hash)
          else
            (case memcpy (replicate (h_key_size hash) 0) k (h_key_size hash) of
               None \<Rightarrow> None
             | Some key_copy \<Rightarrow>
                (case bucket_at hash hash_code of
                   None \<Rightarrow> None
                 | Some bucket \<Rightarrow>
                     let node = hnext hash;
                         hdata = \<lparr>hd_key = key_copy, cache_node_ptr = cache_node\<rparr>;
                         l = (case blist bucket of None \<Rightarrow> [] | Some l \<Rightarrow> l);
                         cnt = (case blist bucket of None \<Rightarrow> 0 | Some l \<Rightarrow> list_count bucket);
                         bucket' = \<lparr>list_count = cnt + 1, blist = Some (list_push_back l node)\<rparr>
                     in Some (Some node,
                          hash\<lparr>bucket_list := (bucket_list hash)[unat hash_code := bucket'],
                               entry_count := entry_count hash + 1,
                               hnodes := (hnodes hash)(node \<mapsto> hdata),
                               hnext := hnext hash + 1\<rparr>))))"

text \<open>\<^verbatim>\<open>hash_del\<close> returns 0 or -1 and the table.\<close>
definition hash_del :: "hash_t \<Rightarrow> byte list option \<Rightarrow> pointer \<Rightarrow> (int \<times> hash_t) option" where
  "hash_del hash key hash_node =
     (case key of
        None \<Rightarrow> Some (- 1, hash)
      | Some k \<Rightarrow>
         (case hash_node of
            None \<Rightarrow> Some (- 1, hash)
          | Some node \<Rightarrow>
              let hash_code = key_to_hash hash k in
              if hash_code > buckets_count hash then Some (- 1, hash)
              else
                (case bucket_at hash hash_code of
                   None \<Rightarrow> None
                 | Some bucket \<Rightarrow>
                    (case blist bucket of
                       None \<Rightarrow> Some (- 1, hash)
                     | Some l \<Rightarrow>
                        (case list_remove l node of
                           None \<Rightarrow> None
                         | Some l' \<Rightarrow>
                            (case free_node hash node of
                               None \<Rightarrow> None
                             | Some hn \<Rightarrow>
                                 Some (0,
                                   hash\<lparr>bucket_list := (bucket_list hash)[unat hash_code :=
                                            \<lparr>list_count = list_count bucket - 1, blist = Some l'\<rparr>],
                                        entry_count := entry_count hash - 1,
                                        hnodes := hn\<rparr>)))))))"

text \<open>\<^verbatim>\<open>hash_find\<close> returns the node the traversal stopped at, or \<^verbatim>\<open>NULL\<close>.\<close>
definition hash_find :: "hash_t \<Rightarrow> byte list option \<Rightarrow> pointer option" where
  "hash_find hash key =
     (case key of
        None \<Rightarrow> Some None
      | Some k \<Rightarrow>
          let hash_code = key_to_hash hash k in
          if hash_code > buckets_count hash then Some None
          else
            (case bucket_at hash hash_code of
               None \<Rightarrow> None
             | Some bucket \<Rightarrow>
                (case blist bucket of
                   None \<Rightarrow> Some None
                 | Some l \<Rightarrow> list_foreach_with_usr_data l (find_node hash) (k, kcmp hash))))"

definition hash_get_count :: "hash_t \<Rightarrow> int" where
  "hash_get_count hash = entry_count hash"

text \<open>The callbacks of the unit test \<^verbatim>\<open>ut/hash_ut.cc\<close>: a key is a \<^verbatim>\<open>u32\<close>, read here from
  its first four bytes in little-endian order.\<close>
fun le_u32 :: "byte list \<Rightarrow> u32" where
  "le_u32 [] = 0"
| "le_u32 (b # bs) = ucast b + 256 * le_u32 bs"

definition test_key_to_int :: "byte list \<Rightarrow> u32" where
  "test_key_to_int key = le_u32 (take 4 key)"

definition test_key_com :: "byte list \<Rightarrow> byte list \<Rightarrow> int" where
  "test_key_com key1 key2 =
     (let a = le_u32 (take 4 key1); b = le_u32 (take 4 key2) in
      if a = b then 0 else if a < b then - 1 else 1)"

section \<open>The global pool of \<^verbatim>\<open>pool.c\<close>\<close>

text \<open>
  \<^verbatim>\<open>pool.c\<close> keeps one file-scope \<^verbatim>\<open>element_pool_t pool\<close>; the model passes it as a state.
  The header \<^verbatim>\<open>pool.h\<close> is not part of the sources; the record holds the two lists
  \<^verbatim>\<open>pool_get_element\<close> works on and the store of the descriptor nodes, which are the
  \<^verbatim>\<open>node_t\<close> of \<^verbatim>\<open>list.h\<close> with the payload address in \<^verbatim>\<open>entry\<close> (\<open>node_entry\<close>).  The free list holds
  descriptor nodes; the busy list holds whatever pointers are pushed, \<^verbatim>\<open>NULL\<close> included.
\<close>

record node_t =
  node_key :: pointer
  node_entry :: pointer

record element_pool_t =
  free_list :: "addr list"
  busy_list :: "pointer list"
  descriptors :: "addr \<rightharpoonup> node_t"

definition pool_get_element :: "element_pool_t \<Rightarrow> pointer \<times> element_pool_t" where
  "pool_get_element pool =
     (let (node, fl) = list_pop_back (free_list pool);
          pool1 = pool\<lparr>free_list := fl\<rparr>;
          pool2 = (if node = None
                   then pool1\<lparr>busy_list := list_push_back (busy_list pool1) node\<rparr>
                   else pool1)
      in (node, pool2))"

section \<open>The slab pool of the cache (\<^verbatim>\<open>libpool.h\<close>)\<close>

text \<open>
  \<^verbatim>\<open>libcache.c\<close> allocates its payloads through \<^verbatim>\<open>libpool.h\<close>, whose implementation is
  not part of the sources (it is not the global pool of \<^verbatim>\<open>pool.c\<close>: its functions take
  the pool as an argument).  A slot is identified by its payload address.
\<close>

datatype return_t = OK | ERR

text \<open>\<open>payload a\<close> is the contents of the payload region of the slot at address \<open>a\<close>.\<close>
record pool_t =
  free_slots :: "addr list"
  busy_slots :: "addr list"
  reserved :: "addr \<Rightarrow> pointer"
  payload :: "addr \<Rightarrow> byte list"

text \<open>Modelled from the spec: the slot size of the missing pool implementation, "rounding
  each element's size up to a multiple of 4".\<close>
definition pool_element_size :: "nat \<Rightarrow> nat" where
  "pool_element_size element_size = ((element_size + 3) div 4) * 4"

text \<open>Modelled from the spec: \<^verbatim>\<open>pool_caculate_total_length\<close> of the missing pool
  implementation for one size class: the region holds the elements "back-to-back".\<close>
definition pool_caculate_total_length :: "nat \<Rightarrow> nat \<Rightarrow> nat" where
  "pool_caculate_total_length element_size element_count =
     pool_element_size element_size * element_count"

text \<open>Modelled from the spec: \<^verbatim>\<open>pools_init\<close> of the missing pool implementation for the one
  size class the cache uses.  "Construction takes a pre-allocated byte region":
  \<open>large_memory\<close> is the address of the region and the bytes it holds, or \<^verbatim>\<open>NULL\<close>.  "The
  pool lays out elements back-to-back, rounding each element's size up to a multiple of
  4": the payload of a slot is its part of the region, a "fixed-size payload region" that
  holds the bytes of the region until something is copied into it (a region that is too
  small leaves slots that reach behind its end).  Every slot starts on the free list,
  with a reserved pointer that is "initially null".  Without a memory region there is no
  pool.\<close>
definition pools_init :: "(addr \<times> byte list) option \<Rightarrow> nat \<Rightarrow> nat \<Rightarrow> pool_t option" where
  "pools_init large_memory element_size element_count =
     (case large_memory of
        None \<Rightarrow> None
      | Some (base, region) \<Rightarrow>
          let sz = pool_element_size element_size;
              slots = map (\<lambda>i. base + i * sz) [0..<element_count]
          in Some \<lparr>free_slots = slots,
                   busy_slots = [],
                   reserved = (\<lambda>a. None),
                   payload = (\<lambda>a. if a \<in> set slots then take sz (drop (a - base) region)
                                   else [])\<rparr>)"

text \<open>Modelled from the spec: \<^verbatim>\<open>pool_get_element(pool, type)\<close> of the missing pool
  implementation, which "pops a descriptor off the free list, pushes onto busy list,
  returns its payload address" and fails "when the free list is empty".\<close>
definition libpool_get_element :: "pool_t \<Rightarrow> pointer \<times> pool_t" where
  "libpool_get_element pool =
     (case list_pop_front (free_slots pool) of
        (None, fl) \<Rightarrow> (None, pool)
      | (Some a, fl) \<Rightarrow> (Some a, pool\<lparr>free_slots := fl, busy_slots := list_push_back (busy_slots pool) a\<rparr>))"

text \<open>Modelled from the spec: \<^verbatim>\<open>pool_free_element(pool, type, element)\<close> of the missing
  pool implementation, which moves the slot's descriptor "free-ward" and fails "if the
  address is outside the region or the descriptor is already free".\<close>
definition libpool_free_element :: "pool_t \<Rightarrow> pointer \<Rightarrow> return_t \<times> pool_t" where
  "libpool_free_element pool element =
     (case element of
        None \<Rightarrow> (ERR, pool)
      | Some a \<Rightarrow>
          if a \<in> set (busy_slots pool)
          then (OK, pool\<lparr>busy_slots := remove1 a (busy_slots pool),
                         free_slots := list_push_back (free_slots pool) a\<rparr>)
          else (ERR, pool))"

text \<open>Modelled from the spec: \<^verbatim>\<open>pool_set_reserved_pointer\<close> and
  \<^verbatim>\<open>pool_get_reserved_pointer\<close> of the missing pool implementation, which "write/read the
  reserved pointer" of a slot.  An address that is no slot of the pool has no reserved
  pointer: writing fails and reading resolves to nothing.\<close>
definition pool_set_reserved_pointer :: "pool_t \<Rightarrow> pointer \<Rightarrow> pointer \<Rightarrow> return_t \<times> pool_t" where
  "pool_set_reserved_pointer pool element ptr =
     (case element of
        None \<Rightarrow> (ERR, pool)
      | Some a \<Rightarrow>
          if a \<in> set (free_slots pool) \<union> set (busy_slots pool)
          then (OK, pool\<lparr>reserved := (reserved pool)(a := ptr)\<rparr>)
          else (ERR, pool))"

definition pool_get_reserved_pointer :: "pool_t \<Rightarrow> pointer \<Rightarrow> pointer" where
  "pool_get_reserved_pointer pool element =
     (case element of
        None \<Rightarrow> None
      | Some a \<Rightarrow>
          if a \<in> set (free_slots pool) \<union> set (busy_slots pool) then reserved pool a else None)"

section \<open>The cache (\<^verbatim>\<open>libcache.c\<close>)\<close>

text \<open>
  The headers \<^verbatim>\<open>libcache.h\<close> and \<^verbatim>\<open>libcache_def.h\<close> are not part of the sources.  The
  result codes are the five names \<^verbatim>\<open>libcache.c\<close> returns.  \<^verbatim>\<open>libcache_scale_t\<close> is a
  count, modelled by a natural number.

  A cache node is a \<^verbatim>\<open>malloc\<close>'ed \<^verbatim>\<open>node_t\<close> with its \<^verbatim>\<open>libcache_node_usr_data_t\<close>; \<open>cnodes\<close>
  is the store of these nodes and \<open>cnext\<close> the next address \<^verbatim>\<open>malloc\<close> returns.  \<open>ud_key\<close>
  is the contents of the node's key buffer \<^verbatim>\<open>key\<close>.  A live cache owns its pool, its hash table and
  its list (\<^verbatim>\<open>libcache_create\<close> returns \<^verbatim>\<open>NULL\<close> otherwise), so the three are fields of
  the record.  The callbacks \<^verbatim>\<open>free_memory\<close> and \<^verbatim>\<open>free_entry\<close> are only called by
  \<^verbatim>\<open>libcache_destroy\<close>, which is not modelled.
\<close>

datatype libcache_ret_t =
  LIBCACHE_SUCCESS | LIBCACHE_FAILURE | LIBCACHE_NOT_FOUND | LIBCACHE_LOCKED | LIBCACHE_UNLOCKED

record libcache_node_usr_data_t =
  ud_key :: "byte list"
  hash_node_ptr :: pointer
  pool_element_ptr :: pointer
  lock_counter :: u32

record libcache_t =
  pool :: pool_t
  hash_table :: hash_t
  list :: "addr list"
  entry_size :: nat
  key_size :: nat
  max_entry_number :: nat
  cnodes :: "addr \<rightharpoonup> libcache_node_usr_data_t"
  cnext :: addr

text \<open>\<^verbatim>\<open>libcache_create\<close>.  \<^verbatim>\<open>allocate_memory\<close> maps a size to the region it returns (its
  address and the bytes it holds, or \<^verbatim>\<open>NULL\<close>); of
  \<^verbatim>\<open>free_memory\<close> and \<^verbatim>\<open>free_entry\<close> only their being \<^verbatim>\<open>NULL\<close> is modelled.  The function
  first rounds \<^verbatim>\<open>entry_size + key_size\<close> up to a multiple of 4 and never uses the result.
  The pool is built for \<^verbatim>\<open>{entry_size, max_entry_number}\<close>, the hash table by \<^verbatim>\<open>hash_init\<close>,
  which receives the capacity as an \<^verbatim>\<open>int\<close>.  Without a pool the function frees what it
  has built and returns \<^verbatim>\<open>NULL\<close>.\<close>
definition libcache_create ::
  "nat \<Rightarrow> nat \<Rightarrow> nat \<Rightarrow> (nat \<Rightarrow> (addr \<times> byte list) option) option \<Rightarrow> unit option \<Rightarrow>
   unit option \<Rightarrow>
   (byte list \<Rightarrow> byte list \<Rightarrow> int) \<Rightarrow> (byte list \<Rightarrow> u32) \<Rightarrow> libcache_t option option" where
  "libcache_create max_entry_num entry_sz key_sz allocate_memory free_memory free_entry
     cmp_key key_to_number =
     (case allocate_memory of
        None \<Rightarrow> Some None
      | Some alloc \<Rightarrow>
         (case free_memory of
            None \<Rightarrow> Some None
          | Some u \<Rightarrow>
              let large_mem_size = pool_caculate_total_length entry_sz max_entry_num;
                  large_memory = alloc large_mem_size
              in
              (case hash_init (int max_entry_num) key_sz cmp_key key_to_number of
                 None \<Rightarrow> None
               | Some ht \<Rightarrow>
                  (case pools_init large_memory entry_sz max_entry_num of
                     None \<Rightarrow> Some None
                   | Some p \<Rightarrow>
                       Some (Some \<lparr>pool = p, hash_table = ht, list = [],
                                   entry_size = entry_sz, key_size = key_sz,
                                   max_entry_number = max_entry_num,
                                   cnodes = Map.empty, cnext = 0\<rparr>)))))"

text \<open>The \<^verbatim>\<open>do { ... } while (0)\<close> block of \<^verbatim>\<open>libcache_lookup\<close>.  \<open>dst_entry\<close> is the address
  and the contents of the caller's buffer, or \<^verbatim>\<open>NULL\<close>.  The result is the returned
  pointer, the contents of the caller's buffer after the call (when there is one) and the
  cache.  \<^verbatim>\<open>memcpy\<close> copies \<^verbatim>\<open>entry_size\<close> bytes from the payload of the pool element, which
  has no defined behaviour for a \<^verbatim>\<open>NULL\<close> pool element.\<close>
definition libcache_lookup_body ::
  "libcache_t \<Rightarrow> byte list \<Rightarrow> (addr \<times> byte list) option \<Rightarrow>
   (pointer \<times> byte list option \<times> libcache_t) option" where
  "libcache_lookup_body c k dst_entry =
     (case hash_find (hash_table c) (Some k) of
        None \<Rightarrow> None
      | Some None \<Rightarrow> Some (None, map_option snd dst_entry, c)
      | Some (Some hash_node) \<Rightarrow>
         (case hnodes (hash_table c) hash_node of
            None \<Rightarrow> None
          | Some hdata \<Rightarrow>
             (case cache_node_ptr hdata of
                None \<Rightarrow> Some (None, map_option snd dst_entry, c)
              | Some libcache_node \<Rightarrow>
                 (case cnodes c libcache_node of
                    None \<Rightarrow> None
                  | Some ud \<Rightarrow>
                     (case list_remove (list c) libcache_node of
                        None \<Rightarrow> None
                      | Some l \<Rightarrow>
                         (case dst_entry of
                            None \<Rightarrow>
                              Some (pool_element_ptr ud, None,
                                c\<lparr>cnodes := (cnodes c)(libcache_node \<mapsto>
                                               ud\<lparr>lock_counter := lock_counter ud + 1\<rparr>),
                                  list := list_push_front l libcache_node\<rparr>)
                          | Some (dst, old) \<Rightarrow>
                             (case pool_element_ptr ud of
                                None \<Rightarrow> None
                              | Some a \<Rightarrow>
                                 (case memcpy old (payload (pool c) a) (entry_size c) of
                                    None \<Rightarrow> None
                                  | Some new \<Rightarrow>
                                      Some (Some dst, Some new,
                                        c\<lparr>list := list_push_front l libcache_node\<rparr>)))))))))"

definition libcache_lookup ::
  "libcache_t option \<Rightarrow> byte list option \<Rightarrow> (addr \<times> byte list) option \<Rightarrow>
   (pointer \<times> byte list option \<times> libcache_t option) option" where
  "libcache_lookup libcache key dst_entry =
     (case libcache of
        None \<Rightarrow> Some (None, map_option snd dst_entry, None)
      | Some c \<Rightarrow>
         (case key of
            None \<Rightarrow> Some (None, map_option snd dst_entry, Some c)
          | Some k \<Rightarrow>
             (case libcache_lookup_body c k dst_entry of
                None \<Rightarrow> None
              | Some (r, d, c') \<Rightarrow> Some (r, d, Some c'))))"

definition libcache_get_unlock_node :: "libcache_t \<Rightarrow> addr \<Rightarrow> int option" where
  "libcache_get_unlock_node c node =
     (case cnodes c node of
        None \<Rightarrow> None
      | Some ud \<Rightarrow> Some (if lock_counter ud \<noteq> 0 then 1 else 0))"

text \<open>The second half of the block of \<^verbatim>\<open>libcache_add\<close>, from "update node data" to the
  return value: \<open>node\<close> is the evicted node or the new one.  Copying the entry to a
  \<^verbatim>\<open>NULL\<close> pool element has no defined behaviour.  The two \<^verbatim>\<open>memcpy\<close> copy \<^verbatim>\<open>entry_size\<close>
  bytes of the entry into the payload of the pool element and \<^verbatim>\<open>key_size\<close> bytes of the key
  into the key buffer of the node.  When the reserved pointer cannot be set, the node is
  popped, its pool element released and the node freed.\<close>
definition libcache_add_node ::
  "libcache_t \<Rightarrow> addr \<Rightarrow> bool \<Rightarrow> byte list \<Rightarrow> byte list option \<Rightarrow> (pointer \<times> libcache_t) option" where
  "libcache_add_node c node is_node_new_created k src_entry =
     (case cnodes c node of
        None \<Rightarrow> None
      | Some ud \<Rightarrow>
          let (pe, pool1) = (if is_node_new_created then libpool_get_element (pool c)
                             else (pool_element_ptr ud, pool c))
          in
          (case (case src_entry of
                   None \<Rightarrow> Some pool1
                 | Some src \<Rightarrow>
                    (case pe of
                       None \<Rightarrow> None
                     | Some a \<Rightarrow>
                        (case memcpy (payload pool1 a) src (entry_size c) of
                           None \<Rightarrow> None
                         | Some new \<Rightarrow>
                             Some (pool1\<lparr>payload := (payload pool1)(a := new)\<rparr>)))) of
             None \<Rightarrow> None
           | Some pool2 \<Rightarrow>
              (case memcpy (ud_key ud) k (key_size c) of
                 None \<Rightarrow> None
               | Some key_copy \<Rightarrow>
                  let ud2 = ud\<lparr>pool_element_ptr := pe, ud_key := key_copy, lock_counter := 0\<rparr>;
                      l = list_push_front (list c) node
                  in
                  (case (if is_node_new_created
                         then pool_set_reserved_pointer pool2 pe (Some node) else (OK, pool2)) of
                     (ERR, pool3) \<Rightarrow>
                       Some (None,
                         c\<lparr>pool := snd (libpool_free_element pool3 pe),
                           list := snd (list_pop_front l),
                           cnodes := (cnodes c)(node := None)\<rparr>)
                   | (OK, pool3) \<Rightarrow>
                      (case hash_add (hash_table c) (Some k) (Some node) of
                         None \<Rightarrow> None
                       | Some (hn, ht) \<Rightarrow>
                           let ud3 = ud2\<lparr>hash_node_ptr := hn\<rparr>;
                               ud4 = (if src_entry = None
                                      then ud3\<lparr>lock_counter := lock_counter ud3 + 1\<rparr> else ud3)
                           in Some (pool_element_ptr ud4,
                                c\<lparr>pool := pool3, hash_table := ht, list := l,
                                  cnodes := (cnodes c)(node \<mapsto> ud4)\<rparr>))))))"

text \<open>The block of \<^verbatim>\<open>libcache_add\<close>.  A full cache evicts the node that
  \<^verbatim>\<open>list_reverse_foreach\<close> stops at and zeroes its key buffer; otherwise a node is
  allocated with a key buffer of \<^verbatim>\<open>key_size\<close> bytes.  The fields of the new node are not yet
  written: \<^verbatim>\<open>pool_element_ptr\<close>, \<^verbatim>\<open>lock_counter\<close> and every byte of the key buffer are
  written before they are read, and \<^verbatim>\<open>hash_node_ptr\<close> is written before the function
  returns an entry.\<close>
definition libcache_add_body ::
  "libcache_t \<Rightarrow> byte list \<Rightarrow> byte list option \<Rightarrow> (pointer \<times> libcache_t) option" where
  "libcache_add_body c k src_entry =
     (case hash_find (hash_table c) (Some k) of
        None \<Rightarrow> None
      | Some (Some hash_node) \<Rightarrow> Some (None, c)
      | Some None \<Rightarrow>
          if max_entry_number c \<le> length (list c) then
            (case list_reverse_foreach (list c) (libcache_get_unlock_node c) of
               None \<Rightarrow> None
             | Some None \<Rightarrow> Some (None, c)
             | Some (Some node) \<Rightarrow>
                (case list_remove (list c) node of
                   None \<Rightarrow> None
                 | Some l \<Rightarrow>
                    (case cnodes c node of
                       None \<Rightarrow> None
                     | Some cache_data \<Rightarrow>
                        (case hash_del (hash_table c) (Some (ud_key cache_data))
                                (hash_node_ptr cache_data) of
                           None \<Rightarrow> None
                         | Some (r, ht) \<Rightarrow>
                            (case memset (ud_key cache_data) 0 (key_size c) of
                               None \<Rightarrow> None
                             | Some zeroed \<Rightarrow>
                                 libcache_add_node
                                   (c\<lparr>list := l, hash_table := ht,
                                      cnodes := (cnodes c)(node \<mapsto>
                                                  cache_data\<lparr>ud_key := zeroed\<rparr>)\<rparr>)
                                   node False k src_entry)))))
          else
            libcache_add_node
              (c\<lparr>cnodes := (cnodes c)(cnext c \<mapsto>
                    \<lparr>ud_key = replicate (key_size c) 0, hash_node_ptr = None,
                     pool_element_ptr = None, lock_counter = 0\<rparr>),
                 cnext := cnext c + 1\<rparr>)
              (cnext c) True k src_entry)"

definition libcache_add ::
  "libcache_t option \<Rightarrow> byte list option \<Rightarrow> byte list option \<Rightarrow>
   (pointer \<times> libcache_t option) option" where
  "libcache_add libcache key src_entry =
     (case libcache of
        None \<Rightarrow> Some (None, None)
      | Some c \<Rightarrow>
         (case key of
            None \<Rightarrow> Some (None, Some c)
          | Some k \<Rightarrow>
             (case libcache_add_body c k src_entry of
                None \<Rightarrow> None
              | Some (r, c') \<Rightarrow> Some (r, Some c'))))"

text \<open>The block of \<^verbatim>\<open>libcache_delete_by_key\<close>.  The results of \<^verbatim>\<open>hash_del\<close> and
  \<^verbatim>\<open>pool_free_element\<close> are not looked at.\<close>
definition libcache_delete_by_key_body ::
  "libcache_t \<Rightarrow> byte list \<Rightarrow> (libcache_ret_t \<times> libcache_t) option" where
  "libcache_delete_by_key_body c k =
     (case hash_find (hash_table c) (Some k) of
        None \<Rightarrow> None
      | Some None \<Rightarrow> Some (LIBCACHE_NOT_FOUND, c)
      | Some (Some hash_node) \<Rightarrow>
         (case hnodes (hash_table c) hash_node of
            None \<Rightarrow> None
          | Some hdata \<Rightarrow>
             (case cache_node_ptr hdata of
                None \<Rightarrow> None
              | Some libcache_node \<Rightarrow>
                 (case cnodes c libcache_node of
                    None \<Rightarrow> None
                  | Some ud \<Rightarrow>
                      if lock_counter ud > 0 then Some (LIBCACHE_LOCKED, c)
                      else
                        (case hash_del (hash_table c) (Some k) (hash_node_ptr ud) of
                           None \<Rightarrow> None
                         | Some (r, ht) \<Rightarrow>
                            (case list_remove (list c) libcache_node of
                               None \<Rightarrow> None
                             | Some l \<Rightarrow>
                                 Some (LIBCACHE_SUCCESS,
                                   c\<lparr>hash_table := ht,
                                     pool := snd (libpool_free_element (pool c) (pool_element_ptr ud)),
                                     list := l,
                                     cnodes := (cnodes c)(libcache_node := None)\<rparr>)))))))"

definition libcache_delete_by_key ::
  "libcache_t option \<Rightarrow> byte list option \<Rightarrow> (libcache_ret_t \<times> libcache_t option) option" where
  "libcache_delete_by_key libcache key =
     (case libcache of
        None \<Rightarrow> Some (LIBCACHE_FAILURE, None)
      | Some c \<Rightarrow>
         (case key of
            None \<Rightarrow> Some (LIBCACHE_FAILURE, Some c)
          | Some k \<Rightarrow>
             (case libcache_delete_by_key_body c k of
                None \<Rightarrow> None
              | Some (r, c') \<Rightarrow> Some (r, Some c'))))"

text \<open>\<^verbatim>\<open>libcache_delete_entry\<close> tests the cache pointer only; \<open>entry\<close> goes to
  \<^verbatim>\<open>pool_get_reserved_pointer\<close> as it is.\<close>
definition libcache_delete_entry ::
  "libcache_t option \<Rightarrow> pointer \<Rightarrow> (libcache_ret_t \<times> libcache_t option) option" where
  "libcache_delete_entry libcache entry =
     (case libcache of
        None \<Rightarrow> Some (LIBCACHE_FAILURE, None)
      | Some c \<Rightarrow>
         (case pool_get_reserved_pointer (pool c) entry of
            None \<Rightarrow> Some (LIBCACHE_NOT_FOUND, Some c)
          | Some libcache_node \<Rightarrow>
             (case cnodes c libcache_node of
                None \<Rightarrow> None
              | Some ud \<Rightarrow>
                  if lock_counter ud > 0 then Some (LIBCACHE_LOCKED, Some c)
                  else
                    (case hash_node_ptr ud of
                       None \<Rightarrow> None
                     | Some hn \<Rightarrow>
                        (case hnodes (hash_table c) hn of
                           None \<Rightarrow> None
                         | Some hash_data \<Rightarrow>
                             libcache_delete_by_key (Some c) (Some (hd_key hash_data)))))))"

definition libcache_unlock_entry ::
  "libcache_t option \<Rightarrow> pointer \<Rightarrow> (libcache_ret_t \<times> libcache_t option) option" where
  "libcache_unlock_entry libcache entry =
     (case libcache of
        None \<Rightarrow> Some (LIBCACHE_FAILURE, None)
      | Some c \<Rightarrow>
         (case entry of
            None \<Rightarrow> Some (LIBCACHE_FAILURE, Some c)
          | Some e \<Rightarrow>
             (case pool_get_reserved_pointer (pool c) entry of
                None \<Rightarrow> Some (LIBCACHE_NOT_FOUND, Some c)
              | Some libcache_node \<Rightarrow>
                 (case cnodes c libcache_node of
                    None \<Rightarrow> None
                  | Some ud \<Rightarrow>
                      if lock_counter ud = 0 then Some (LIBCACHE_UNLOCKED, Some c)
                      else Some (LIBCACHE_SUCCESS,
                             Some (c\<lparr>cnodes := (cnodes c)(libcache_node \<mapsto>
                                      ud\<lparr>lock_counter := lock_counter ud - 1\<rparr>)\<rparr>))))))"

text \<open>The two getters return \<^verbatim>\<open>LIBCACHE_FAILURE\<close> for a \<^verbatim>\<open>NULL\<close> cache.\<close>
definition libcache_get_max_entry_number :: "libcache_t option \<Rightarrow> libcache_ret_t + nat" where
  "libcache_get_max_entry_number libcache =
     (case libcache of None \<Rightarrow> Inl LIBCACHE_FAILURE | Some c \<Rightarrow> Inr (max_entry_number c))"

definition libcache_get_entry_number :: "libcache_t option \<Rightarrow> libcache_ret_t + int" where
  "libcache_get_entry_number libcache =
     (case libcache of None \<Rightarrow> Inl LIBCACHE_FAILURE | Some c \<Rightarrow> Inr (hash_get_count (hash_table c)))"

text \<open>The loop of \<^verbatim>\<open>libcache_clean\<close>:
  \<^verbatim>\<open>while (NULL != (libcache_node = list_pop_front(libcache_ptr->list))) { ... }\<close>.\<close>
function libcache_clean_loop :: "libcache_t \<Rightarrow> (libcache_ret_t \<times> libcache_t) option" where
  "libcache_clean_loop c =
     (case list_pop_front (list c) of
        (None, l) \<Rightarrow> Some (LIBCACHE_SUCCESS, c)
      | (Some libcache_node, l) \<Rightarrow>
         (case cnodes c libcache_node of
            None \<Rightarrow> None
          | Some ud \<Rightarrow>
             (case libpool_free_element (pool c) (pool_element_ptr ud) of
                (ERR, p) \<Rightarrow> Some (LIBCACHE_FAILURE, c\<lparr>list := l, pool := p\<rparr>)
              | (OK, p) \<Rightarrow>
                  libcache_clean_loop
                    (c\<lparr>list := l, pool := p, cnodes := (cnodes c)(libcache_node := None)\<rparr>))))"
  by pat_completeness auto
termination
  by (relation "measure (\<lambda>c. length (list c))") (auto simp: list_pop_front_def split: list.splits)

definition libcache_clean :: "libcache_t option \<Rightarrow> (libcache_ret_t \<times> libcache_t option) option" where
  "libcache_clean libcache =
     (case libcache of
        None \<Rightarrow> Some (LIBCACHE_FAILURE, None)
      | Some c \<Rightarrow>
         (case libcache_clean_loop c of
            None \<Rightarrow> None
          | Some (r, c') \<Rightarrow> Some (r, Some c')))"

section \<open>The bit width the specification asks for\<close>

text \<open>The specification's words for the width of the hash: "the smallest b such that
  \<open>2^b - 1 \<ge> capacity\<close>".  This definition follows the specification, not the code; the
  code's width is \<open>get_bits\<close>.\<close>
definition min_bits :: "nat \<Rightarrow> nat" where
  "min_bits capacity = (LEAST b. capacity \<le> 2 ^ b - 1)"

section \<open>Example states\<close>

text \<open>
  The caches below are written out field by field and are shown further down to be the
  states the interface itself produces: a cache for two entries with keys and entries of
  four bytes, created with the callbacks of the unit test on a region of zero bytes at
  address 1000, and the states after one or two calls of \<^verbatim>\<open>libcache_add\<close>.
\<close>

definition ut_alloc :: "nat \<Rightarrow> (addr \<times> byte list) option" where
  "ut_alloc n = Some (1000, replicate n 0)"

text \<open>The payloads of the two slots of the new pool.\<close>
definition payload_A :: "addr \<Rightarrow> byte list" where
  "payload_A = (\<lambda>a. if a = 1000 \<or> a = 1004 then [0, 0, 0, 0] else [])"

definition k0 :: "byte list" where "k0 = [0, 0, 0, 0]"
definition k3 :: "byte list" where "k3 = [3, 0, 0, 0]"
definition k5 :: "byte list" where "k5 = [5, 0, 0, 0]"
definition k7 :: "byte list" where "k7 = [7, 0, 0, 0]"

text \<open>The empty table of \<^verbatim>\<open>hash_init(2, 4, test_key_com, test_key_to_int)\<close> and the new cache.\<close>
definition hash_A :: hash_t where
  "hash_A = \<lparr>bits = 2, buckets_count = 3,
     bucket_list = [empty_bucket, empty_bucket, empty_bucket, empty_bucket],
     entry_count = 0, h_key_size = 4, kcmp = test_key_com, k2num = test_key_to_int,
     hnodes = Map.empty, hnext = 0\<rparr>"

definition cache_A :: libcache_t where
  "cache_A = \<lparr>pool = \<lparr>free_slots = [1000, 1004], busy_slots = [],
                       reserved = (\<lambda>a. None), payload = payload_A\<rparr>,
     hash_table = hash_A, list = [], entry_size = 4, key_size = 4, max_entry_number = 2,
     cnodes = Map.empty, cnext = 0\<rparr>"

text \<open>The empty table of \<^verbatim>\<open>hash_init(0, 4, test_key_com, test_key_to_int)\<close>.\<close>
definition hash_Z :: hash_t where
  "hash_Z = \<lparr>bits = 1, buckets_count = 1, bucket_list = [empty_bucket, empty_bucket],
     entry_count = 0, h_key_size = 4, kcmp = test_key_com, k2num = test_key_to_int,
     hnodes = Map.empty, hnext = 0\<rparr>"

text \<open>After \<^verbatim>\<open>libcache_add(cache, &k5, NULL)\<close>: one entry, pinned once.\<close>
definition hash_B :: hash_t where
  "hash_B = \<lparr>bits = 2, buckets_count = 3,
     bucket_list = [\<lparr>list_count = 1, blist = Some [0]\<rparr>, empty_bucket, empty_bucket, empty_bucket],
     entry_count = 1, h_key_size = 4, kcmp = test_key_com, k2num = test_key_to_int,
     hnodes = [0 \<mapsto> \<lparr>hd_key = k5, cache_node_ptr = Some 0\<rparr>], hnext = 1\<rparr>"

definition cache_B :: libcache_t where
  "cache_B = \<lparr>pool = \<lparr>free_slots = [1004], busy_slots = [1000],
                       reserved = (\<lambda>a. None)(1000 := Some 0), payload = payload_A\<rparr>,
     hash_table = hash_B, list = [0], entry_size = 4, key_size = 4, max_entry_number = 2,
     cnodes = [0 \<mapsto> \<lparr>ud_key = k5, hash_node_ptr = Some 0, pool_element_ptr = Some 1000,
                         lock_counter = 1\<rparr>],
     cnext = 1\<rparr>"

text \<open>\<open>cache_B\<close> after its entry has been pinned \<open>2^32 - 2\<close> more times.\<close>
definition cache_M :: libcache_t where
  "cache_M = cache_B\<lparr>cnodes := [0 \<mapsto> \<lparr>ud_key = k5, hash_node_ptr = Some 0,
                                       pool_element_ptr = Some 1000, lock_counter = 0xffffffff\<rparr>]\<rparr>"

text \<open>After a further \<^verbatim>\<open>libcache_add(cache, &k3, src)\<close> with the entry \<open>[1, 2, 3, 4]\<close>: the
  cache is full, the entry of \<open>k3\<close> is at the front and not pinned, the pinned entry of
  \<open>k5\<close> is at the tail.\<close>
definition hash_C :: hash_t where
  "hash_C = \<lparr>bits = 2, buckets_count = 3,
     bucket_list = [\<lparr>list_count = 1, blist = Some [0]\<rparr>, empty_bucket, empty_bucket,
                    \<lparr>list_count = 1, blist = Some [1]\<rparr>],
     entry_count = 2, h_key_size = 4, kcmp = test_key_com, k2num = test_key_to_int,
     hnodes = [0 \<mapsto> \<lparr>hd_key = k5, cache_node_ptr = Some 0\<rparr>,
               1 \<mapsto> \<lparr>hd_key = k3, cache_node_ptr = Some 1\<rparr>], hnext = 2\<rparr>"

definition cache_C :: libcache_t where
  "cache_C = \<lparr>pool = \<lparr>free_slots = [], busy_slots = [1000, 1004],
                       reserved = (\<lambda>a. None)(1000 := Some 0, 1004 := Some 1),
                       payload = payload_A(1004 := [1, 2, 3, 4])\<rparr>,
     hash_table = hash_C, list = [1, 0], entry_size = 4, key_size = 4, max_entry_number = 2,
     cnodes = [0 \<mapsto> \<lparr>ud_key = k5, hash_node_ptr = Some 0, pool_element_ptr = Some 1000,
                         lock_counter = 1\<rparr>,
               1 \<mapsto> \<lparr>ud_key = k3, hash_node_ptr = Some 1, pool_element_ptr = Some 1004,
                         lock_counter = 0\<rparr>],
     cnext = 2\<rparr>"

text \<open>After \<^verbatim>\<open>libcache_add(cache, &k5, NULL)\<close> and \<^verbatim>\<open>libcache_add(cache, &k0, NULL)\<close>: both
  entries are pinned, and both keys hash to bucket 0.\<close>
definition hash_D :: hash_t where
  "hash_D = \<lparr>bits = 2, buckets_count = 3,
     bucket_list = [\<lparr>list_count = 2, blist = Some [0, 1]\<rparr>, empty_bucket, empty_bucket, empty_bucket],
     entry_count = 2, h_key_size = 4, kcmp = test_key_com, k2num = test_key_to_int,
     hnodes = [0 \<mapsto> \<lparr>hd_key = k5, cache_node_ptr = Some 0\<rparr>,
               1 \<mapsto> \<lparr>hd_key = k0, cache_node_ptr = Some 1\<rparr>], hnext = 2\<rparr>"

definition cache_D :: libcache_t where
  "cache_D = \<lparr>pool = \<lparr>free_slots = [], busy_slots = [1000, 1004],
                       reserved = (\<lambda>a. None)(1000 := Some 0, 1004 := Some 1),
                       payload = payload_A\<rparr>,
     hash_table = hash_D, list = [1, 0], entry_size = 4, key_size = 4, max_entry_number = 2,
     cnodes = [0 \<mapsto> \<lparr>ud_key = k5, hash_node_ptr = Some 0, pool_element_ptr = Some 1000,
                         lock_counter = 1\<rparr>,
               1 \<mapsto> \<lparr>ud_key = k0, hash_node_ptr = Some 1, pool_element_ptr = Some 1004,
                         lock_counter = 1\<rparr>],
     cnext = 2\<rparr>"

text \<open>\<open>cache_C\<close> after \<^verbatim>\<open>libcache_add(cache, &k7, src)\<close> with the entry \<open>[5, 6, 7, 8]\<close>: the node
  of \<open>k3\<close> has been evicted and holds \<open>k7\<close>, whose new hash node lies in bucket 1.\<close>
definition hash_E :: hash_t where
  "hash_E = \<lparr>bits = 2, buckets_count = 3,
     bucket_list = [\<lparr>list_count = 1, blist = Some [0]\<rparr>, \<lparr>list_count = 1, blist = Some [2]\<rparr>,
                    empty_bucket, \<lparr>list_count = 0, blist = Some []\<rparr>],
     entry_count = 2, h_key_size = 4, kcmp = test_key_com, k2num = test_key_to_int,
     hnodes = [0 \<mapsto> \<lparr>hd_key = k5, cache_node_ptr = Some 0\<rparr>,
               2 \<mapsto> \<lparr>hd_key = k7, cache_node_ptr = Some 1\<rparr>], hnext = 3\<rparr>"

definition cache_E :: libcache_t where
  "cache_E = \<lparr>pool = \<lparr>free_slots = [], busy_slots = [1000, 1004],
                       reserved = (\<lambda>a. None)(1000 := Some 0, 1004 := Some 1),
                       payload = payload_A(1004 := [5, 6, 7, 8])\<rparr>,
     hash_table = hash_E, list = [1, 0], entry_size = 4, key_size = 4, max_entry_number = 2,
     cnodes = [0 \<mapsto> \<lparr>ud_key = k5, hash_node_ptr = Some 0, pool_element_ptr = Some 1000,
                         lock_counter = 1\<rparr>,
               1 \<mapsto> \<lparr>ud_key = k7, hash_node_ptr = Some 2, pool_element_ptr = Some 1004,
                         lock_counter = 0\<rparr>],
     cnext = 2\<rparr>"

text \<open>\<open>cache_C\<close> after \<^verbatim>\<open>libcache_unlock_entry\<close> on the payload address 1000: no entry is
  pinned, and the entry of \<open>k5\<close> at the tail is the least recently used one.\<close>
definition cache_U :: libcache_t where
  "cache_U = \<lparr>pool = \<lparr>free_slots = [], busy_slots = [1000, 1004],
                       reserved = (\<lambda>a. None)(1000 := Some 0, 1004 := Some 1),
                       payload = payload_A(1004 := [1, 2, 3, 4])\<rparr>,
     hash_table = hash_C, list = [1, 0], entry_size = 4, key_size = 4, max_entry_number = 2,
     cnodes = [1 \<mapsto> \<lparr>ud_key = k3, hash_node_ptr = Some 1, pool_element_ptr = Some 1004,
                         lock_counter = 0\<rparr>,
               0 \<mapsto> \<lparr>ud_key = k5, hash_node_ptr = Some 0, pool_element_ptr = Some 1000,
                         lock_counter = 0\<rparr>],
     cnext = 2\<rparr>"

text \<open>What \<^verbatim>\<open>libcache_clean\<close> leaves of \<open>cache_B\<close> and of \<open>cache_C\<close>: the list and the node
  store are empty and the pool slots are free again, but the hash table is the one from
  before the call.\<close>
definition cache_B_cleaned :: libcache_t where
  "cache_B_cleaned = \<lparr>pool = \<lparr>free_slots = [1004, 1000], busy_slots = [],
                       reserved = (\<lambda>a. None)(1000 := Some 0), payload = payload_A\<rparr>,
     hash_table = hash_B, list = [], entry_size = 4, key_size = 4, max_entry_number = 2,
     cnodes = Map.empty, cnext = 1\<rparr>"

definition cache_C_cleaned :: libcache_t where
  "cache_C_cleaned = \<lparr>pool = \<lparr>free_slots = [1004, 1000], busy_slots = [],
                       reserved = (\<lambda>a. None)(1000 := Some 0, 1004 := Some 1),
                       payload = payload_A(1004 := [1, 2, 3, 4])\<rparr>,
     hash_table = hash_C, list = [], entry_size = 4, key_size = 4, max_entry_number = 2,
     cnodes = Map.empty, cnext = 2\<rparr>"

text \<open>A global pool of \<^verbatim>\<open>pool.c\<close> with one free descriptor at address 100 for the payload at
  address 5000, and nothing busy.\<close>
definition pool_one :: element_pool_t where
  "pool_one = \<lparr>free_list = [100], busy_list = [],
                descriptors = [100 \<mapsto> \<lparr>node_key = None, node_entry = Some 5000\<rparr>]\<rparr>"

section \<open>Keeping a resident entry\<close>

text \<open>An operation that takes the cache from \<open>c\<close> to \<open>c'\<close> keeps the entry of the node \<open>E\<close>
  when \<open>E\<close> is still in the list, its node (key buffer, pointers, pin-count) is the same,
  and so are the bytes of its payload and its hash node.\<close>
definition keeps_entry :: "libcache_t \<Rightarrow> libcache_t \<Rightarrow> addr \<Rightarrow> bool" where
  "keeps_entry c c' E =
     (E \<in> set (list c') \<and> cnodes c' E = cnodes c E
      \<and> (case cnodes c E of
            None \<Rightarrow> True
          | Some ud \<Rightarrow>
              (case pool_element_ptr ud of
                 None \<Rightarrow> True
               | Some a \<Rightarrow> payload (pool c') a = payload (pool c) a)
              \<and> (case hash_node_ptr ud of
                   None \<Rightarrow> True
                 | Some h \<Rightarrow> hnodes (hash_table c') h = hnodes (hash_table c) h)))"

text \<open>The node \<open>E\<close> shares nothing: it is not the address the next \<^verbatim>\<open>malloc\<close> returns, its
  pool element is not on the free list, its hash node is not the address the next
  \<^verbatim>\<open>malloc\<close> of the hash table returns, and no other node of the list has its pool element
  or its hash node.\<close>
definition entry_separate :: "libcache_t \<Rightarrow> addr \<Rightarrow> bool" where
  "entry_separate c E =
     (case cnodes c E of
        None \<Rightarrow> False
      | Some ud \<Rightarrow>
          E \<noteq> cnext c
          \<and> (case pool_element_ptr ud of
                None \<Rightarrow> True
              | Some a \<Rightarrow> a \<notin> set (free_slots (pool c)))
          \<and> (case hash_node_ptr ud of
                None \<Rightarrow> True
              | Some h \<Rightarrow> h \<noteq> hnext (hash_table c))
          \<and> list_all (\<lambda>n. n = E \<or>
                (case cnodes c n of
                   None \<Rightarrow> True
                 | Some d \<Rightarrow>
                     (pool_element_ptr d = None \<or> pool_element_ptr d \<noteq> pool_element_ptr ud)
                     \<and> (hash_node_ptr d = None \<or> hash_node_ptr d \<noteq> hash_node_ptr ud)))
              (list c))"

text \<open>\<open>n\<close> calls of \<^verbatim>\<open>libcache_lookup(cache, &k5, NULL)\<close>, each of which returns an entry.\<close>
fun pin_repeatedly :: "nat \<Rightarrow> libcache_t \<Rightarrow> libcache_t option" where
  "pin_repeatedly 0 c = Some c"
| "pin_repeatedly (Suc n) c =
     (case libcache_lookup (Some c) (Some k5) None of
        Some (Some p, w, Some c') \<Rightarrow> pin_repeatedly n c'
      | _ \<Rightarrow> None)"

section \<open>The order of the LRU list\<close>

text \<open>
  To say which resident entry was touched last, a sequence of calls is run with a clock:
  \<open>stamp n\<close> is the time at which the cache node \<open>n\<close> was last touched, that is, found by a
  \<^verbatim>\<open>libcache_lookup\<close> that returned an entry or filled by a \<^verbatim>\<open>libcache_add\<close> that returned an
  entry.  The calls are those of the interface on a live cache with a key.
\<close>

datatype operation =
    Lookup "byte list" "(addr \<times> byte list) option"
  | Add "byte list" "byte list option"
  | Delete_by_key "byte list"
  | Delete_entry pointer
  | Unlock_entry pointer
  | Clean

text \<open>The cache node that \<^verbatim>\<open>libcache_lookup\<close> and \<^verbatim>\<open>libcache_delete_by_key\<close> resolve a key to:
  the node that \<^verbatim>\<open>hash_find\<close> returns, and then its \<^verbatim>\<open>cache_node_ptr\<close>.\<close>
definition lookup_node :: "libcache_t \<Rightarrow> byte list \<Rightarrow> pointer" where
  "lookup_node c k =
     (case hash_find (hash_table c) (Some k) of
        Some (Some hash_node) \<Rightarrow>
          (case hnodes (hash_table c) hash_node of
             Some hdata \<Rightarrow> cache_node_ptr hdata
           | None \<Rightarrow> None)
      | _ \<Rightarrow> None)"

text \<open>The cache node that \<^verbatim>\<open>libcache_add\<close> fills (\<^verbatim>\<open>libcache_list_unlock_node\<close>): in a full
  cache the node the reverse traversal stops at, otherwise the node \<^verbatim>\<open>malloc\<close> returns.\<close>
definition add_node_chosen :: "libcache_t \<Rightarrow> pointer" where
  "add_node_chosen c =
     (if max_entry_number c \<le> length (list c) then
        (case list_reverse_foreach (list c) (libcache_get_unlock_node c) of
           Some (Some node) \<Rightarrow> Some node
         | _ \<Rightarrow> None)
      else Some (cnext c))"

record traced =
  tcache :: libcache_t
  stamp :: "addr \<Rightarrow> nat"
  clock :: nat

text \<open>The call has left the cache \<open>c'\<close>; when it has touched a node, the node gets the time
  of the clock and the clock advances.\<close>
definition touch :: "traced \<Rightarrow> pointer \<Rightarrow> libcache_t \<Rightarrow> traced" where
  "touch t node c' =
     (case node of
        None \<Rightarrow> t\<lparr>tcache := c'\<rparr>
      | Some n \<Rightarrow> \<lparr>tcache = c', stamp = (stamp t)(n := clock t), clock = clock t + 1\<rparr>)"

text \<open>One call.  A \<^verbatim>\<open>libcache_lookup\<close> or \<^verbatim>\<open>libcache_add\<close> that returns an entry touches the
  node it has resolved or filled; every other call touches nothing.  The result is
  \<open>None\<close> where the call has no defined behaviour.\<close>
fun trace_step :: "traced \<Rightarrow> operation \<Rightarrow> traced option" where
  "trace_step t (Lookup k dst) =
     (case libcache_lookup (Some (tcache t)) (Some k) dst of
        Some (Some p, w, Some c') \<Rightarrow> Some (touch t (lookup_node (tcache t) k) c')
      | Some (None, w, Some c') \<Rightarrow> Some (touch t None c')
      | _ \<Rightarrow> None)"
| "trace_step t (Add k src) =
     (case libcache_add (Some (tcache t)) (Some k) src of
        Some (Some p, Some c') \<Rightarrow> Some (touch t (add_node_chosen (tcache t)) c')
      | Some (None, Some c') \<Rightarrow> Some (touch t None c')
      | _ \<Rightarrow> None)"
| "trace_step t (Delete_by_key k) =
     (case libcache_delete_by_key (Some (tcache t)) (Some k) of
        Some (r, Some c') \<Rightarrow> Some (touch t None c')
      | _ \<Rightarrow> None)"
| "trace_step t (Delete_entry e) =
     (case libcache_delete_entry (Some (tcache t)) e of
        Some (r, Some c') \<Rightarrow> Some (touch t None c')
      | _ \<Rightarrow> None)"
| "trace_step t (Unlock_entry e) =
     (case libcache_unlock_entry (Some (tcache t)) e of
        Some (r, Some c') \<Rightarrow> Some (touch t None c')
      | _ \<Rightarrow> None)"
| "trace_step t Clean =
     (case libcache_clean (Some (tcache t)) of
        Some (r, Some c') \<Rightarrow> Some (touch t None c')
      | _ \<Rightarrow> None)"

fun trace_run :: "traced \<Rightarrow> operation list \<Rightarrow> traced option" where
  "trace_run t [] = Some t"
| "trace_run t (op # ops) =
     (case trace_step t op of None \<Rightarrow> None | Some t' \<Rightarrow> trace_run t' ops)"

text \<open>The list is in the order of the last touch, the most recent first: along the list
  the stamps decrease.  Every node of the list has been touched before now, has been
  allocated (it is in the store and below the next address of \<^verbatim>\<open>malloc\<close>) and has a pool
  element.\<close>
definition lru_ordered :: "traced \<Rightarrow> bool" where
  "lru_ordered t \<longleftrightarrow>
     sorted_wrt (\<lambda>a b. stamp t b < stamp t a) (list (tcache t))
     \<and> list_all (\<lambda>n. stamp t n < clock t \<and> n < cnext (tcache t)
                    \<and> (case cnodes (tcache t) n of
                         None \<Rightarrow> False
                       | Some ud \<Rightarrow> pool_element_ptr ud \<noteq> None))
          (list (tcache t))"

section \<open>Evaluation\<close>

declare get_bits_loop.simps [simp del]
declare hash_init_loop.simps [simp del]
declare libcache_clean_loop.simps [simp del]

lemmas key_defs = k0_def k3_def k5_def k7_def test_key_com_def test_key_to_int_def

lemmas hash_defs = key_to_hash_def hash_32_def GOLDEN_RATIO_PRIME_32_def bucket_at_def
  hash_find_def hash_add_def hash_del_def find_node_def free_node_def
  list_foreach_with_usr_data_def list_remove_def list_push_back_def empty_bucket_def
  memcpy_def

lemma payload_A_slots: "payload_A 1000 = [0, 0, 0, 0]" "payload_A 1004 = [0, 0, 0, 0]"
  by (simp_all add: payload_A_def)

lemmas pool_defs = libpool_get_element_def libpool_free_element_def
  pool_set_reserved_pointer_def pool_get_reserved_pointer_def list_pop_front_def
  list_push_back_def memcpy_def memset_def payload_A_slots

lemmas cache_defs = libcache_add_def libcache_add_body_def libcache_add_node_def
  libcache_lookup_def libcache_lookup_body_def libcache_delete_by_key_def
  libcache_delete_by_key_body_def libcache_delete_entry_def libcache_unlock_entry_def
  libcache_get_unlock_node_def list_reverse_foreach_def list_push_front_def list_remove_def

lemma replicate_update_same: "(replicate n x)[i := x] = replicate n x"
  by (induction n arbitrary: i) (auto split: nat.splits simp: list_update_code)

text \<open>The loop of \<^verbatim>\<open>hash_init\<close> ends and leaves every bucket empty when \<open>buckets_count\<close> is
  below \<^verbatim>\<open>INT_MAX\<close>.\<close>
lemma hash_init_loop_replicate:
  assumes "0 \<le> i" "i \<le> uint bc + 1" "uint bc < 2147483647"
  shows "hash_init_loop i bc (replicate (unat bc + 1) empty_bucket)
         = Some (replicate (unat bc + 1) empty_bucket)"
  using assms
proof (induction "nat (uint bc + 1 - i)" arbitrary: i)
  case 0
  then have i: "i = uint bc + 1" by simp
  have "uint (bc + 1) = uint bc + 1"
    using 0(4) by (simp add: uint_word_ariths take_bit_int_eq_self)
  then have "\<not> (word_of_int (uint bc + 1) :: u32) \<le> bc"
    by (simp add: word_le_def)
  then show ?case
    by (subst hash_init_loop.simps) (simp add: i)
next
  case (Suc n)
  then have lt: "i \<le> uint bc" by simp
  have i32: "i < 2 ^ 32" using lt Suc(5) by simp
  have uw: "uint (word_of_int i :: u32) = i"
    using Suc(3) i32 by (simp add: uint_word_of_int take_bit_eq_mod)
  have le: "(word_of_int i :: u32) \<le> bc"
    by (simp only: word_le_def uw lt)
  have "nat i \<le> nat (uint bc)" using lt by (rule nat_mono)
  then have idx: "nat i < length (replicate (unat bc + 1) empty_bucket)"
    by (simp only: unat_eq_nat_uint length_replicate)
  have ov: "\<not> 2147483647 \<le> i" using lt Suc(5) by linarith
  have rec: "hash_init_loop (i + 1) bc (replicate (unat bc + 1) empty_bucket)
             = Some (replicate (unat bc + 1) empty_bucket)"
  proof (rule Suc(1))
    show "n = nat (uint bc + 1 - (i + 1))" using Suc(2) by linarith
    show "0 \<le> i + 1" using Suc(3) by linarith
    show "i + 1 \<le> uint bc + 1" using lt by linarith
    show "uint bc < 2147483647" by fact
  qed
  show ?case
    by (subst hash_init_loop.simps)
      (simp only: le idx ov Suc(3) rec replicate_update_same if_True if_False simp_thms)
qed

lemma get_bits_2: "get_bits 2 = 2"
  by (simp add: get_bits_def get_bits_loop.simps)

subsection \<open>The example states are the ones the interface produces\<close>

lemma hash_init_A: "hash_init 2 4 test_key_com test_key_to_int = Some hash_A"
proof -
  have four: "replicate 4 empty_bucket = [empty_bucket, empty_bucket, empty_bucket, empty_bucket]"
    by (simp add: numeral_eq_Suc)
  have "hash_init_loop 0 3 (replicate (unat (3 :: u32) + 1) empty_bucket)
        = Some (replicate (unat (3 :: u32) + 1) empty_bucket)"
    by (rule hash_init_loop_replicate) simp_all
  then have loop: "hash_init_loop 0 3 (replicate 4 empty_bucket) = Some (replicate 4 empty_bucket)"
    by simp
  have bc: "get_bucket_number 2 = 3"
    by (simp add: get_bucket_number_def)
  show ?thesis
    by (simp add: hash_init_def get_bits_2 bc loop hash_A_def) (simp only: four)
qed

lemma pools_init_A:
  "pools_init (ut_alloc 8) 4 2
   = Some \<lparr>free_slots = [1000, 1004], busy_slots = [], reserved = (\<lambda>a. None),
            payload = payload_A\<rparr>"
proof -
  have eight: "replicate 8 (0 :: byte) = [0, 0, 0, 0, 0, 0, 0, 0]"
    by (simp add: numeral_eq_Suc)
  have "(\<lambda>a. if a = 1000 \<or> a = 1004 then take 4 (drop (a - 1000) (replicate 8 (0 :: byte)))
              else []) = payload_A"
    unfolding eight by (auto simp: payload_A_def fun_eq_iff)
  then show ?thesis
    by (simp add: pools_init_def ut_alloc_def pool_element_size_def upt_rec)
qed

lemma create_A:
  "libcache_create 2 4 4 (Some ut_alloc) (Some ()) None test_key_com test_key_to_int
   = Some (Some cache_A)"
  by (simp add: libcache_create_def hash_init_A pools_init_A cache_A_def
      pool_element_size_def pool_caculate_total_length_def)

lemma add_A: "libcache_add (Some cache_A) (Some k5) None = Some (Some 1000, Some cache_B)"
  by (simp add: cache_defs hash_defs pool_defs key_defs cache_A_def hash_A_def cache_B_def
      hash_B_def Let_def)

lemma add_B_k3:
  "libcache_add (Some cache_B) (Some k3) (Some [1, 2, 3, 4]) = Some (Some 1004, Some cache_C)"
  by (simp add: cache_defs hash_defs pool_defs key_defs cache_B_def hash_B_def cache_C_def
      hash_C_def Let_def)

lemma add_B_k0: "libcache_add (Some cache_B) (Some k0) None = Some (Some 1004, Some cache_D)"
  by (simp add: cache_defs hash_defs pool_defs key_defs cache_B_def hash_B_def cache_D_def
      hash_D_def Let_def)

lemma hash_add_A: "hash_add hash_A (Some k5) (Some 0) = Some (Some 0, hash_B)"
  by (simp add: hash_defs key_defs hash_A_def hash_B_def Let_def)

lemma hash_add_B: "hash_add hash_B (Some k0) (Some 1) = Some (Some 1, hash_D)"
  by (simp add: hash_defs key_defs hash_B_def hash_D_def Let_def)

section \<open>The global pool: acquiring an element\<close>

lemma pool_get_element_busy_unchanged:
  "free_list p \<noteq> [] \<Longrightarrow> busy_list (snd (pool_get_element p)) = busy_list p"
  by (simp add: pool_get_element_def list_pop_back_def)

lemma pool_get_element_fails_iff:
  "fst (pool_get_element p) = None \<longleftrightarrow> free_list p = []"
  by (simp add: pool_get_element_def list_pop_back_def)

text \<open>
  Claim C9 says that acquiring an element pops a descriptor off the free list, pushes
  that descriptor onto the busy list and returns the descriptor's payload address.
  \<^verbatim>\<open>pool_get_element\<close> of \<^verbatim>\<open>pool.c\<close> pushes onto the busy list only under \<^verbatim>\<open>node == NULL\<close>,
  and returns the descriptor node: on the pool \<open>pool_one\<close>, whose one free descriptor
  at address 100 describes the payload at address 5000, it returns address 100, empties the
  free list and leaves the busy list empty.
\<close>
theorem pool_get_element_leaves_busy_list:
  "pool_get_element pool_one = (Some 100, pool_one\<lparr>free_list := []\<rparr>)
   \<and> busy_list (snd (pool_get_element pool_one)) = []
   \<and> descriptors pool_one 100 = Some \<lparr>node_key = None, node_entry = Some 5000\<rparr>"
  by (simp add: pool_get_element_def pool_one_def list_pop_back_def list_push_back_def)

section \<open>\<^verbatim>\<open>libcache_clean\<close>\<close>

text \<open>\<^verbatim>\<open>libcache_clean\<close> has no path that returns \<^verbatim>\<open>LIBCACHE_LOCKED\<close>.\<close>
lemma clean_loop_never_locked:
  "libcache_clean_loop c = Some (r, c') \<Longrightarrow> r \<noteq> LIBCACHE_LOCKED"
proof (induction "length (list c)" arbitrary: c)
  case 0
  then show ?case
    by (subst (asm) libcache_clean_loop.simps) (simp add: list_pop_front_def)
next
  case (Suc m)
  then obtain n l where Cons: "list c = n # l" by (cases "list c") auto
  from Suc(3) obtain ud where ud: "cnodes c n = Some ud"
    by (subst (asm) libcache_clean_loop.simps)
      (auto simp: list_pop_front_def Cons split: option.splits)
  obtain rr p where fr: "libpool_free_element (pool c) (pool_element_ptr ud) = (rr, p)"
    by (cases "libpool_free_element (pool c) (pool_element_ptr ud)")
  show ?case
  proof (cases rr)
    case ERR
    with Suc(3) ud fr Cons show ?thesis
      by (subst (asm) libcache_clean_loop.simps) (simp add: list_pop_front_def)
  next
    case OK
    with Suc(3) ud fr Cons have
      "libcache_clean_loop (c\<lparr>list := l, pool := p, cnodes := (cnodes c)(n := None)\<rparr>)
       = Some (r, c')"
      by (subst (asm) libcache_clean_loop.simps) (simp add: list_pop_front_def)
    moreover have "m = length (list (c\<lparr>list := l, pool := p, cnodes := (cnodes c)(n := None)\<rparr>))"
      using Suc(2) Cons by simp
    ultimately show ?thesis by (rule Suc(1) [rotated])
  qed
qed

lemma clean_never_locked:
  "libcache_clean libcache \<noteq> Some (LIBCACHE_LOCKED, c')"
  using clean_loop_never_locked
  by (auto simp: libcache_clean_def split: option.splits)

text \<open>
  Claim C1 says that \<^verbatim>\<open>clean\<close> returns \<^verbatim>\<open>Locked\<close> and frees nothing when a resident entry
  is pinned.  \<^verbatim>\<open>libcache_clean\<close> never reads a \<^verbatim>\<open>lock_counter\<close>: on \<open>cache_B\<close>, whose only
  entry has the pin-count 1, it returns \<^verbatim>\<open>LIBCACHE_SUCCESS\<close>, and the entry's node is
  popped and freed.
\<close>
theorem clean_frees_pinned_entry:
  "list cache_B = [0]
   \<and> cnodes cache_B 0 = Some \<lparr>ud_key = k5, hash_node_ptr = Some 0,
                               pool_element_ptr = Some 1000, lock_counter = 1\<rparr>
   \<and> libcache_clean (Some cache_B) = Some (LIBCACHE_SUCCESS, Some cache_B_cleaned)
   \<and> list cache_B_cleaned = []
   \<and> cnodes cache_B_cleaned 0 = None"
  by (simp add: libcache_clean_def libcache_clean_loop.simps pool_defs cache_B_def
      cache_B_cleaned_def)

text \<open>
  Claim C5 says that after a successful \<^verbatim>\<open>clean\<close> every hash entry is gone, so that
  \<^verbatim>\<open>size()\<close> is 0 and a lookup of a key that was resident returns nothing.
  \<^verbatim>\<open>libcache_clean\<close> does not touch the hash table: on \<open>cache_C\<close> with its two entries
  it returns \<^verbatim>\<open>LIBCACHE_SUCCESS\<close>, after which \<^verbatim>\<open>libcache_get_entry_number\<close> is still 2,
  \<^verbatim>\<open>hash_find\<close> still finds the node of \<open>k3\<close>, and \<^verbatim>\<open>libcache_lookup\<close> of \<open>k3\<close> follows that
  node to a freed cache node, which has no defined behaviour.
\<close>
theorem clean_keeps_hash_entries:
  "libcache_clean (Some cache_C) = Some (LIBCACHE_SUCCESS, Some cache_C_cleaned)
   \<and> libcache_get_entry_number (Some cache_C_cleaned) = Inr 2
   \<and> hash_find (hash_table cache_C_cleaned) (Some k3) = Some (Some 1)
   \<and> libcache_lookup (Some cache_C_cleaned) (Some k3) None = None"
  by (simp add: libcache_clean_def libcache_clean_loop.simps pool_defs cache_C_def
      cache_C_cleaned_def libcache_get_entry_number_def hash_get_count_def hash_C_def
      hash_defs key_defs libcache_lookup_def libcache_lookup_body_def Let_def)

section \<open>\<^verbatim>\<open>NULL\<close> arguments\<close>

text \<open>A \<^verbatim>\<open>NULL\<close> cache or key makes \<^verbatim>\<open>libcache_lookup\<close> and \<^verbatim>\<open>libcache_add\<close> return \<^verbatim>\<open>NULL\<close> and
  \<^verbatim>\<open>libcache_delete_by_key\<close> return \<^verbatim>\<open>LIBCACHE_FAILURE\<close>; a \<^verbatim>\<open>NULL\<close> cache makes
  \<^verbatim>\<open>libcache_delete_entry\<close> and \<^verbatim>\<open>libcache_unlock_entry\<close> return \<^verbatim>\<open>LIBCACHE_FAILURE\<close>, and so
  does a \<^verbatim>\<open>NULL\<close> entry for \<^verbatim>\<open>libcache_unlock_entry\<close>.  The cache stays as it is.\<close>
lemma null_arguments:
  "libcache_lookup None key dst = Some (None, map_option snd dst, None)"
  "libcache_lookup (Some c) None dst = Some (None, map_option snd dst, Some c)"
  "libcache_add None key src = Some (None, None)"
  "libcache_add (Some c) None src = Some (None, Some c)"
  "libcache_delete_by_key None key = Some (LIBCACHE_FAILURE, None)"
  "libcache_delete_by_key (Some c) None = Some (LIBCACHE_FAILURE, Some c)"
  "libcache_delete_entry None entry = Some (LIBCACHE_FAILURE, None)"
  "libcache_unlock_entry None entry = Some (LIBCACHE_FAILURE, None)"
  "libcache_unlock_entry (Some c) None = Some (LIBCACHE_FAILURE, Some c)"
  by (simp_all add: libcache_lookup_def libcache_add_def libcache_delete_by_key_def
      libcache_delete_entry_def libcache_unlock_entry_def)

lemma delete_entry_null_entry_any:
  "libcache_delete_entry (Some c) None = Some (LIBCACHE_NOT_FOUND, Some c)"
  by (simp add: libcache_delete_entry_def pool_get_reserved_pointer_def)

text \<open>
  Claim C10 says that a call with a \<^verbatim>\<open>NULL\<close> cache, key or entry pointer returns nothing
  (\<^verbatim>\<open>lookup\<close>, \<^verbatim>\<open>add\<close>) or \<^verbatim>\<open>LIBCACHE_FAILURE\<close> (\<^verbatim>\<open>delete_by_key\<close>, \<^verbatim>\<open>delete_by_entry\<close>,
  \<^verbatim>\<open>unlock\<close>) and changes nothing.  \<^verbatim>\<open>libcache_delete_entry\<close> does not test its entry
  pointer: with a \<^verbatim>\<open>NULL\<close> entry on \<open>cache_B\<close> the pointer resolves to no node and the
  result is \<^verbatim>\<open>LIBCACHE_NOT_FOUND\<close>, where \<^verbatim>\<open>libcache_unlock_entry\<close>, which tests it, returns
  \<^verbatim>\<open>LIBCACHE_FAILURE\<close>.
\<close>
theorem delete_entry_null_entry:
  "libcache_delete_entry (Some cache_B) None = Some (LIBCACHE_NOT_FOUND, Some cache_B)
   \<and> libcache_unlock_entry (Some cache_B) None = Some (LIBCACHE_FAILURE, Some cache_B)"
  by (simp add: libcache_delete_entry_def libcache_unlock_entry_def pool_get_reserved_pointer_def)

section \<open>\<^verbatim>\<open>hash_find\<close>\<close>

text \<open>A key is missed when its bucket has no list, or when no node of the list compares
  equal to it.\<close>
lemma foreach_no_stop:
  "\<forall>n\<in>set xs. \<exists>r. cb n = Some r \<and> r \<noteq> 0 \<Longrightarrow> foreach cb xs = Some None"
  by (induction xs) auto

lemma hash_find_not_stored:
  assumes "bucket_at ht (key_to_hash ht k) = Some b"
    and "\<forall>l. blist b = Some l \<longrightarrow>
           (\<forall>n\<in>set l. \<exists>hdata. hnodes ht n = Some hdata \<and> kcmp ht k (hd_key hdata) \<noteq> 0)"
  shows "hash_find ht (Some k) = Some None"
proof (cases "blist b")
  case None
  then show ?thesis using assms(1) by (simp add: hash_find_def Let_def)
next
  case (Some l)
  have "foreach (\<lambda>node. find_node ht node (k, kcmp ht)) l = Some None"
    using assms(2) Some by (intro foreach_no_stop) (auto simp: find_node_def)
  then show ?thesis
    using assms(1) Some by (simp add: hash_find_def Let_def list_foreach_with_usr_data_def)
qed

text \<open>
  Claim C8 says that \<^verbatim>\<open>find\<close> walks the whole bucket list and returns the first node whose
  key compares equal, and nothing only when no node of the bucket compares equal.
  \<^verbatim>\<open>find_node\<close> returns the comparator's result to the traversal, for which a negative
  value means to give up: in \<open>hash_D\<close> the bucket of \<open>k0\<close> holds the node of \<open>k5\<close> and then
  the node of \<open>k0\<close>; the comparator of the unit test is -1 on \<open>k0\<close> against \<open>k5\<close>, and
  \<^verbatim>\<open>hash_find\<close> of \<open>k0\<close> returns \<^verbatim>\<open>NULL\<close> although the second node compares equal.
\<close>
theorem hash_find_misses_stored_key:
  "hash_find hash_D (Some k0) = Some None
   \<and> bucket_at hash_D (key_to_hash hash_D k0) = Some \<lparr>list_count = 2, blist = Some [0, 1]\<rparr>
   \<and> hnodes hash_D 1 = Some \<lparr>hd_key = k0, cache_node_ptr = Some 1\<rparr>
   \<and> kcmp hash_D k0 k0 = 0
   \<and> hnodes hash_D 0 = Some \<lparr>hd_key = k5, cache_node_ptr = Some 0\<rparr>
   \<and> kcmp hash_D k0 k5 = - 1"
  by (simp add: hash_defs key_defs hash_D_def Let_def)

section \<open>The hash index: width, bucket count and bucket index\<close>

text \<open>\<^verbatim>\<open>get_bits\<close> counts the binary digits of its argument.\<close>
lemma get_bits_loop_spec:
  "1 \<le> n \<Longrightarrow> 2 ^ (n - 1) \<le> unat val \<Longrightarrow> unat val < 2 ^ n \<Longrightarrow>
   get_bits_loop val count = count + of_nat (n - 1)"
proof (induction n arbitrary: val count)
  case 0
  then show ?case by simp
next
  case (Suc n)
  have dv: "unat (drop_bit 1 val) = unat val div 2"
    by (simp add: drop_bit_eq_div unat_div)
  show ?case
  proof (cases "n = 0")
    case True
    with Suc.prems have "unat val = 1" by simp
    then have "unat (drop_bit 1 val) = 0" using dv by simp
    then have "drop_bit 1 val = 0" by (simp add: unat_eq_0)
    then show ?thesis using True
      by (subst get_bits_loop.simps) (simp add: Let_def)
  next
    case False
    then obtain m where n: "n = Suc m" by (cases n) auto
    have "2 ^ (n - 1) \<le> unat val div 2"
      using Suc.prems(2) n by simp
    then have lo: "2 ^ (n - 1) \<le> unat (drop_bit 1 val)"
      by (simp only: dv)
    have "unat val div 2 < 2 ^ n"
      using Suc.prems(3) by simp
    then have hi: "unat (drop_bit 1 val) < 2 ^ n"
      by (simp only: dv)
    have "(0::nat) < 2 ^ (n - 1)" by simp
    then have "0 < unat (drop_bit 1 val)" using lo by (rule less_le_trans)
    then have nz: "drop_bit 1 val \<noteq> 0" by auto
    have "get_bits_loop (drop_bit 1 val) (count + 1) = count + 1 + of_nat (n - 1)"
      using False lo hi by (intro Suc.IH) simp_all
    then show ?thesis using nz n
      by (subst get_bits_loop.simps) (simp add: Let_def)
  qed
qed

lemma min_bits_eq:
  assumes "1 \<le> n" "2 ^ (n - 1) \<le> c" "c < 2 ^ n"
  shows "min_bits c = n"
  unfolding min_bits_def
proof (rule Least_equality)
  show "c \<le> 2 ^ n - 1" using assms(3) by simp
next
  fix b assume b: "c \<le> 2 ^ b - 1"
  show "n \<le> b"
  proof (rule ccontr)
    assume "\<not> n \<le> b"
    then have "b \<le> n - 1" by simp
    then have p: "(2::nat) ^ b \<le> 2 ^ (n - 1)" by (simp add: power_increasing)
    have "c < 2 ^ b" using b by (simp add: Nat.le_diff_conv2 less_eq_Suc_le)
    then have "c < 2 ^ (n - 1)" using p by (rule less_le_trans)
    then show False using assms(2) by linarith
  qed
qed

lemma bit_length_ex:
  assumes "c \<noteq> (0::u32)"
  shows "\<exists>n. 1 \<le> n \<and> n \<le> 32 \<and> 2 ^ (n - 1) \<le> unat c \<and> unat c < 2 ^ n"
proof -
  define n where "n = (LEAST b. unat c < 2 ^ b)"
  have c32: "unat c < 2 ^ 32" using unsigned_less [of c, where 'a = nat] by simp
  have P: "unat c < 2 ^ n" unfolding n_def using c32 by (rule LeastI)
  have le: "n \<le> 32" unfolding n_def using c32 by (rule Least_le)
  have pos: "unat c \<noteq> 0" using assms by (simp add: unat_eq_0)
  have n1: "1 \<le> n" using P pos by (cases n) auto
  have "\<not> unat c < 2 ^ (n - 1)"
  proof
    assume "unat c < 2 ^ (n - 1)"
    then have "n \<le> n - 1" unfolding n_def by (intro Least_le) (simp add: n_def)
    then show False using n1 by simp
  qed
  then show ?thesis using n1 le P by (intro exI [of _ n]) simp
qed

lemma get_bits_zero: "get_bits 0 = 1"
  by (simp add: get_bits_def get_bits_loop.simps)

lemma get_bits_min_bits:
  assumes "c \<noteq> 0"
  shows "unat (get_bits c) = min_bits (unat c)" and "1 \<le> unat (get_bits c)" and "unat (get_bits c) \<le> 32"
proof -
  obtain n where n: "1 \<le> n" "n \<le> 32" "2 ^ (n - 1) \<le> unat c" "unat c < 2 ^ n"
    using bit_length_ex [OF assms] by blast
  have "get_bits c = 1 + of_nat (n - 1)"
    unfolding get_bits_def using n by (intro get_bits_loop_spec) simp_all
  also have "\<dots> = of_nat n" using n(1) by (cases n) simp_all
  finally have g: "get_bits c = of_nat n" .
  have u: "unat (get_bits c) = n"
    using n(2) by (simp add: g unat_of_nat)
  show "unat (get_bits c) = min_bits (unat c)"
    using min_bits_eq [OF n(1) n(3) n(4)] u by simp
  show "1 \<le> unat (get_bits c)" "unat (get_bits c) \<le> 32" using u n by simp_all
qed

lemma min_bits_zero: "min_bits 0 = 0"
  by (simp add: min_bits_def)

lemma hash_32_less:
  assumes "1 \<le> unat b" "unat b \<le> 32"
  shows "unat (hash_32 v b) < 2 ^ unat b"
proof -
  have sub: "unat (32 - b) = 32 - unat b"
    using assms by (simp add: unat_sub word_le_nat_alt)
  have x: "unat (v * GOLDEN_RATIO_PRIME_32) < 2 ^ 32"
    using unsigned_less [of "v * GOLDEN_RATIO_PRIME_32", where 'a = nat] by simp
  have "(2::nat) ^ 32 = 2 ^ (32 - unat b) * 2 ^ unat b"
    using assms by (simp flip: power_add)
  then have "unat (v * GOLDEN_RATIO_PRIME_32) div 2 ^ (32 - unat b) < 2 ^ unat b"
    using x by (simp add: less_mult_imp_div_less mult.commute)
  then show ?thesis
    by (simp only: hash_32_def Let_def sub unat_drop_bit_eq) (simp add: drop_bit_eq_div)
qed


lemma get_bits_width:
  "unat (get_bits c) = (if c = 0 then 1 else min_bits (unat c))
   \<and> 1 \<le> unat (get_bits c) \<and> unat (get_bits c) \<le> 32"
  using get_bits_min_bits [of c] by (simp add: get_bits_zero)

lemma get_bucket_number_eq:
  assumes "1 \<le> unat b" "unat b \<le> 32"
  shows "unat (get_bucket_number b) + 1 = 2 ^ unat b"
proof (cases "unat b = 32")
  case True
  then have "b = 32" by (simp add: word_unat_eq_iff)
  then show ?thesis by (simp add: get_bucket_number_def MAX_BUCKETS_def)
next
  case False
  then have lt: "unat b < 32" using assms by simp
  then have "\<not> 32 \<le> b" by (simp add: word_le_nat_alt)
  moreover have "unat ((2::u32) ^ unat b - 1) = 2 ^ unat b - 1"
  proof -
    have lt2: "(2::nat) ^ unat b < 2 ^ 32"
      using lt by (intro power_strict_increasing) simp_all
    have "unat (of_nat (2 ^ unat b) :: u32) = 2 ^ unat b"
      using lt2 by (simp only: unat_of_nat) simp
    then have p: "unat ((2::u32) ^ unat b) = 2 ^ unat b" by simp
    then have "(2::u32) ^ unat b \<noteq> 0" by (auto simp: word_unat_eq_iff)
    then show ?thesis using p by (simp add: unat_minus_one)
  qed
  ultimately show ?thesis by (simp add: get_bucket_number_def)
qed

lemma get_bits_5: "get_bits 5 = 3"
  by (simp add: get_bits_def get_bits_loop.simps)

lemma hash_init_Z: "hash_init 0 4 test_key_com test_key_to_int = Some hash_Z"
proof -
  have two: "replicate 2 empty_bucket = [empty_bucket, empty_bucket]"
    by (simp add: numeral_eq_Suc)
  have "hash_init_loop 0 1 (replicate (unat (1 :: u32) + 1) empty_bucket)
        = Some (replicate (unat (1 :: u32) + 1) empty_bucket)"
    by (rule hash_init_loop_replicate) simp_all
  then have loop: "hash_init_loop 0 1 [empty_bucket, empty_bucket]
                   = Some [empty_bucket, empty_bucket]"
    by simp
  have loop2: "hash_init_loop 0 1 (replicate 2 empty_bucket) = Some [empty_bucket, empty_bucket]"
    using loop by (simp only: two)
  have bc: "get_bucket_number 1 = 1"
    by (simp add: get_bucket_number_def word_le_nat_alt)
  show ?thesis
    by (simp add: hash_init_def get_bits_zero bc loop2 hash_Z_def)
qed

text \<open>For a capacity of \<open>2^30\<close> the width is 31 and \<^verbatim>\<open>buckets_count\<close> is \<^verbatim>\<open>INT_MAX\<close>: the loop of
  \<^verbatim>\<open>hash_init\<close> increments its \<^verbatim>\<open>int\<close> counter beyond \<^verbatim>\<open>INT_MAX\<close>.\<close>
lemma hash_init_loop_overflow:
  "0 \<le> i \<Longrightarrow> i \<le> 2147483647 \<Longrightarrow> hash_init_loop i 0x7fffffff bl = None"
proof (induction "nat (2147483647 - i)" arbitrary: i bl)
  case 0
  then have i: "i = 2147483647" by simp
  show ?case
    by (subst hash_init_loop.simps) (simp add: i)
next
  case (Suc n)
  have i32: "i < 2 ^ 32" using Suc(4) by simp
  have uw: "uint (word_of_int i :: u32) = i"
    using Suc(3) i32 by (simp add: uint_word_of_int take_bit_eq_mod)
  have "uint (word_of_int i :: u32) \<le> uint (0x7fffffff :: u32)"
    unfolding uw using Suc(4) by simp
  then have le: "(word_of_int i :: u32) \<le> 0x7fffffff"
    by (simp only: word_le_def)
  have ov: "\<not> 2147483647 \<le> i" using Suc(2) by linarith
  have rec: "hash_init_loop (i + 1) 0x7fffffff bl' = None" for bl'
  proof (rule Suc(1))
    show "n = nat (2147483647 - (i + 1))" using Suc(2) by linarith
    show "0 \<le> i + 1" using Suc(3) by linarith
    show "i + 1 \<le> 2147483647" using ov by linarith
  qed
  show ?case
    by (subst hash_init_loop.simps) (simp only: le ov rec if_True if_False if_cancel)
qed

lemma get_bits_2_30: "get_bits 1073741824 = 31"
proof -
  have "get_bits_loop 1073741824 1 = 1 + of_nat (31 - 1)"
    by (rule get_bits_loop_spec) simp_all
  then show ?thesis by (simp add: get_bits_def)
qed

lemma hash_init_2_30: "hash_init 1073741824 ksz key_cmp key_to_num = None"
proof -
  have bc: "get_bucket_number 31 = 0x7fffffff"
    by (simp add: get_bucket_number_def word_le_nat_alt)
  show ?thesis
    by (simp add: hash_init_def get_bits_2_30 bc hash_init_loop_overflow)
qed


text \<open>
  Claim C7, amended.  The width \<open>bits\<close> that \<^verbatim>\<open>hash_init\<close> computes from the capacity (read
  as \<^verbatim>\<open>u32\<close>) is 1 for the capacity 0 and otherwise the smallest \<open>b\<close> with
  \<open>2^b - 1 \<ge> capacity\<close>; it is between 1 and 32.  For every capacity from 0 to \<open>2^30 - 1\<close>
  \<^verbatim>\<open>hash_init\<close> returns a table with \<open>buckets_count + 1 = 2^bits\<close> buckets, and for every key
  the bucket index is \<open>(key_to_integer(key) * 0x9E370001 mod 2^32) >> (32 - bits)\<close>, is at
  most \<open>buckets_count\<close> and lies inside the bucket array.
\<close>
theorem hash_bucket_index:
  "(unat (get_bits (word_of_int max_entry))
      = (if (word_of_int max_entry :: u32) = 0 then 1
         else min_bits (unat (word_of_int max_entry :: u32)))
    \<and> 1 \<le> unat (get_bits (word_of_int max_entry))
    \<and> unat (get_bits (word_of_int max_entry)) \<le> 32)
   \<and> (0 \<le> max_entry \<and> max_entry < 2 ^ 30 \<longrightarrow>
        (\<exists>h. hash_init max_entry ksz key_cmp key_to_num = Some h
           \<and> bits h = get_bits (word_of_int max_entry)
           \<and> unat (buckets_count h) + 1 = 2 ^ unat (bits h)
           \<and> length (bucket_list h) = 2 ^ unat (bits h)
           \<and> (\<forall>key. key_to_hash h key
                      = drop_bit (32 - unat (bits h)) (key_to_num key * 0x9e370001)
                    \<and> key_to_hash h key \<le> buckets_count h
                    \<and> unat (key_to_hash h key) < length (bucket_list h))))"
proof (intro conjI impI)
  let ?c = "word_of_int max_entry :: u32"
  let ?b = "get_bits ?c"
  show "unat ?b = (if ?c = 0 then 1 else min_bits (unat ?c))" "1 \<le> unat ?b" "unat ?b \<le> 32"
    using get_bits_width [of ?c] by simp_all
  assume range: "0 \<le> max_entry \<and> max_entry < 2 ^ 30"
  have b1: "1 \<le> unat ?b" and b32: "unat ?b \<le> 32"
    using get_bits_width [of ?c] by simp_all
  have uc: "unat ?c = nat max_entry"
    using range by (simp add: unat_eq_nat_uint uint_word_of_int take_bit_eq_mod)
  have b30: "unat ?b \<le> 30"
  proof (cases "?c = 0")
    case True
    then show ?thesis by (simp add: get_bits_zero)
  next
    case False
    have "nat max_entry \<le> 2 ^ 30 - 1" using range by (simp add: nat_le_iff)
    then have "min_bits (unat ?c) \<le> 30"
      unfolding min_bits_def uc by (rule Least_le)
    then show ?thesis using get_bits_width [of ?c] False by simp
  qed
  let ?bc = "get_bucket_number ?b"
  have bc: "unat ?bc + 1 = 2 ^ unat ?b"
    using b1 b32 by (rule get_bucket_number_eq)
  have "(2::nat) ^ unat ?b \<le> 2 ^ 30" using b30 by (intro power_increasing) simp_all
  then have bcs: "unat ?bc < 2 ^ 30" using bc by linarith
  then have "unat ?bc < 1073741824" by simp
  then have "int (unat ?bc) < 2147483647" by linarith
  then have small: "uint ?bc < 2147483647"
    using uint_nat [of ?bc] by linarith
  have len: "unat (?bc + 1) = unat ?bc + 1"
    using bcs by (simp add: unat_word_ariths)
  have loop: "hash_init_loop 0 ?bc (replicate (unat ?bc + 1) empty_bucket)
              = Some (replicate (unat ?bc + 1) empty_bucket)"
    using small by (intro hash_init_loop_replicate) simp_all
  let ?h = "\<lparr>bits = ?b, buckets_count = ?bc,
             bucket_list = replicate (unat ?bc + 1) empty_bucket, entry_count = 0,
             h_key_size = ksz, kcmp = key_cmp, k2num = key_to_num,
             hnodes = Map.empty, hnext = 0\<rparr>"
  have init: "hash_init max_entry ksz key_cmp key_to_num = Some ?h"
    by (simp only: hash_init_def Let_def len loop option.case)
  have idx: "unat (hash_32 v ?b) < 2 ^ unat ?b" for v
    using b1 b32 by (rule hash_32_less)
  have sub: "unat (32 - ?b) = 32 - unat ?b"
    using b32 by (simp add: unat_sub word_le_nat_alt)
  show "\<exists>h. hash_init max_entry ksz key_cmp key_to_num = Some h
           \<and> bits h = get_bits (word_of_int max_entry)
           \<and> unat (buckets_count h) + 1 = 2 ^ unat (bits h)
           \<and> length (bucket_list h) = 2 ^ unat (bits h)
           \<and> (\<forall>key. key_to_hash h key
                      = drop_bit (32 - unat (bits h)) (key_to_num key * 0x9e370001)
                    \<and> key_to_hash h key \<le> buckets_count h
                    \<and> unat (key_to_hash h key) < length (bucket_list h))"
  proof (intro exI [of _ ?h] conjI allI)
    have kh: "key_to_hash ?h key = hash_32 (key_to_num key) ?b" for key
      by (simp add: key_to_hash_def)
    have bh: "bits ?h = ?b" and bch: "buckets_count ?h = ?bc" by simp_all
    have lenh: "length (bucket_list ?h) = 2 ^ unat ?b" using bc by simp
    show "hash_init max_entry ksz key_cmp key_to_num = Some ?h" by (rule init)
    show "bits ?h = ?b" by (rule bh)
    show "unat (buckets_count ?h) + 1 = 2 ^ unat (bits ?h)" unfolding bh bch by (rule bc)
    show "length (bucket_list ?h) = 2 ^ unat (bits ?h)" unfolding bh by (rule lenh)
    fix key
    show "key_to_hash ?h key = drop_bit (32 - unat (bits ?h)) (key_to_num key * 0x9e370001)"
      unfolding kh bh by (simp add: hash_32_def GOLDEN_RATIO_PRIME_32_def sub)
    show "unat (key_to_hash ?h key) < length (bucket_list ?h)"
      unfolding kh lenh by (rule idx)
    have "unat (hash_32 (key_to_num key) ?b) \<le> unat ?bc"
      using idx [of "key_to_num key"] bc by linarith
    then show "key_to_hash ?h key \<le> buckets_count ?h"
      unfolding kh bch by (simp only: word_le_nat_alt)
  qed
qed

theorem hash_bucket_index_witness:
  "\<exists>h. hash_init 5 4 test_key_com test_key_to_int = Some h
     \<and> bits h = 3 \<and> min_bits 5 = 3 \<and> length (bucket_list h) = 8
     \<and> key_to_hash h k7 = 2 \<and> key_to_hash h k7 \<le> buckets_count h"
  using hash_bucket_index [of 5 4 test_key_com test_key_to_int]
  apply (simp add: get_bits_5)
  apply (elim conjE exE)
  subgoal for h
    apply (rule exI [of _ h])
    apply (simp add: key_defs word_le_nat_alt)
    done
  done


text \<open>
  Claim C7 as stated fails for the capacity 0: the smallest \<open>b\<close> with \<open>2^b - 1 \<ge> 0\<close> is 0,
  and the table \<^verbatim>\<open>hash_init\<close> builds has the width 1.  It also fails for the capacity
  \<open>2^30\<close>, where \<^verbatim>\<open>hash_init\<close> has no defined result.
\<close>
theorem hash_bits_capacity_zero:
  "hash_init 0 4 test_key_com test_key_to_int = Some hash_Z
   \<and> unat (bits hash_Z) = 1 \<and> min_bits 0 = 0 \<and> unat (bits hash_Z) \<noteq> min_bits 0
   \<and> hash_init 1073741824 4 test_key_com test_key_to_int = None"
  by (simp add: hash_init_Z min_bits_zero hash_init_2_30) (simp add: hash_Z_def)

section \<open>\<^verbatim>\<open>libcache_lookup\<close>\<close>



lemma hash_find_C_k7: "hash_find hash_C (Some k7) = Some None"
  by (simp add: hash_defs key_defs hash_C_def Let_def)

lemma hash_find_D_k3: "hash_find hash_D (Some k3) = Some None"
  by (simp add: hash_defs key_defs hash_D_def Let_def)

lemma memcpy_length: "memcpy dst src n = Some r \<Longrightarrow> length r = length dst"
  by (auto simp: memcpy_def split: if_splits)

text \<open>The slots that \<^verbatim>\<open>pools_init\<close> carves from a region that is large enough hold the
  rounded element size, which is at least the element size.\<close>
lemma pools_init_payload_length:
  assumes "pools_init (Some (base, region)) element_size element_count = Some p"
    and "pool_caculate_total_length element_size element_count \<le> length region"
    and "a \<in> set (free_slots p)"
  shows "length (payload p a) = pool_element_size element_size"
    and "element_size \<le> length (payload p a)"
proof -
  let ?sz = "pool_element_size element_size"
  let ?slots = "map (\<lambda>i. base + i * ?sz) [0..<element_count]"
  from assms(1) have f: "free_slots p = ?slots"
    and pl: "payload p = (\<lambda>a. if a \<in> set ?slots then take ?sz (drop (a - base) region) else [])"
    by (auto simp: pools_init_def Let_def)
  from assms(3) obtain i where i: "i < element_count" "a = base + i * ?sz"
    unfolding f by auto
  have "(i + 1) * ?sz \<le> element_count * ?sz"
    using i(1) by (intro mult_le_mono1) simp
  then have "i * ?sz + ?sz \<le> length region"
    using assms(2) by (simp add: pool_caculate_total_length_def mult.commute)
  moreover have "payload p a = take ?sz (drop (a - base) region)"
    using assms(3) unfolding f pl by simp
  ultimately show "length (payload p a) = ?sz"
    using i(2) by simp
  moreover have "element_size \<le> ?sz"
    by (simp add: pool_element_size_def)
  ultimately show "element_size \<le> length (payload p a)" by simp
qed



text \<open>Each lookup without a destination buffer adds one to the 32-bit pin-count; \<open>cache_M\<close>
  is \<open>cache_B\<close> after \<open>2^32 - 2\<close> of them.\<close>
lemma pin_repeatedly_B:
  "pin_repeatedly n (cache_B\<lparr>cnodes := [0 \<mapsto> \<lparr>ud_key = k5, hash_node_ptr = Some 0,
                                       pool_element_ptr = Some 1000, lock_counter = w\<rparr>]\<rparr>)
   = Some (cache_B\<lparr>cnodes := [0 \<mapsto> \<lparr>ud_key = k5, hash_node_ptr = Some 0,
                                       pool_element_ptr = Some 1000, lock_counter = w + of_nat n\<rparr>]\<rparr>)"
proof (induction n arbitrary: w)
  case 0
  show ?case by simp
next
  case (Suc n)
  have step: "libcache_lookup (Some (cache_B\<lparr>cnodes := [0 \<mapsto> \<lparr>ud_key = k5, hash_node_ptr = Some 0,
                                       pool_element_ptr = Some 1000, lock_counter = w\<rparr>]\<rparr>))
                (Some k5) None
     = Some (Some 1000, None,
          Some (cache_B\<lparr>cnodes := [0 \<mapsto> \<lparr>ud_key = k5, hash_node_ptr = Some 0,
                                       pool_element_ptr = Some 1000, lock_counter = w + 1\<rparr>]\<rparr>))"
    by (simp add: cache_B_def cache_defs hash_defs key_defs hash_B_def Let_def)
  have "w + 1 + of_nat n = w + of_nat (Suc n)" by simp
  then show ?case
    by (simp only: pin_repeatedly.simps step option.case prod.case Suc.IH)
qed

lemma cache_M_reached: "pin_repeatedly 4294967294 cache_B = Some cache_M"
proof -
  have "cache_B = cache_B\<lparr>cnodes := [0 \<mapsto> \<lparr>ud_key = k5, hash_node_ptr = Some 0,
                                       pool_element_ptr = Some 1000, lock_counter = 1\<rparr>]\<rparr>"
    by (simp add: cache_B_def)
  then have "pin_repeatedly 4294967294 cache_B
     = Some (cache_B\<lparr>cnodes := [0 \<mapsto> \<lparr>ud_key = k5, hash_node_ptr = Some 0,
                pool_element_ptr = Some 1000, lock_counter = 1 + of_nat 4294967294\<rparr>]\<rparr>)"
    using pin_repeatedly_B [of 4294967294 1] by simp
  then show ?thesis by (simp add: cache_M_def)
qed


section \<open>\<^verbatim>\<open>libcache_add\<close> on a full cache\<close>

lemma foreach_all_continue:
  "\<forall>n\<in>set ys. \<exists>r. cb n = Some r \<and> 0 < r \<Longrightarrow> foreach cb ys = Some None"
  by (induction ys) auto

lemma foreach_first_stop:
  "\<forall>n\<in>set ys. \<exists>r. cb n = Some r \<and> 0 < r \<Longrightarrow> cb v = Some 0 \<Longrightarrow>
   foreach cb (ys @ v # xs) = Some (Some v)"
  by (induction ys) auto

lemma foreach_stopD:
  "foreach cb xs = Some (Some n) \<Longrightarrow> n \<in> set xs \<and> cb n = Some 0"
  by (induction xs) (auto split: option.splits if_splits)

lemma unlock_node_pinned:
  "cnodes c n = Some ud \<Longrightarrow> lock_counter ud \<noteq> 0 \<Longrightarrow>
   \<exists>r. libcache_get_unlock_node c n = Some r \<and> 0 < r"
  by (simp add: libcache_get_unlock_node_def)

lemma add_full_cache_step:
  assumes full: "max_entry_number c \<le> length (list c)"
    and miss: "hash_find (hash_table c) (Some k) = Some None"
  shows "((\<forall>n\<in>set (list c). \<exists>ud. cnodes c n = Some ud \<and> lock_counter ud \<noteq> 0) \<longrightarrow>
            libcache_add (Some c) (Some k) src = Some (None, Some c))
    \<and> (list c = xs @ v # ys \<and> v \<notin> set xs
        \<and> (\<forall>n\<in>set ys. \<exists>ud. cnodes c n = Some ud \<and> lock_counter ud \<noteq> 0)
        \<and> cnodes c v = Some vd \<and> lock_counter vd = 0
        \<and> hash_node_ptr vd = Some hv \<and> pool_element_ptr vd = Some p
        \<and> hash_del (hash_table c) (Some (ud_key vd)) (Some hv) = Some (0, ht1)
        \<and> hash_add ht1 (Some k) (Some v) = Some (Some hn, ht2)
        \<and> key_size c \<le> length k \<and> key_size c \<le> length (ud_key vd)
        \<and> (\<forall>s. src = Some s \<longrightarrow>
              entry_size c \<le> length s \<and> entry_size c \<le> length (payload (pool c) p)) \<longrightarrow>
          libcache_add (Some c) (Some k) src
          = Some (Some p,
              Some (c\<lparr>pool := (case src of None \<Rightarrow> pool c
                                | Some s \<Rightarrow> (pool c)\<lparr>payload := (payload (pool c))
                                    (p := take (entry_size c) s
                                          @ drop (entry_size c) (payload (pool c) p))\<rparr>),
                      hash_table := ht2,
                      list := v # xs @ ys,
                      cnodes := (cnodes c)(v \<mapsto>
                        \<lparr>ud_key = take (key_size c) k @ drop (key_size c) (ud_key vd),
                         hash_node_ptr = Some hn, pool_element_ptr = Some p,
                         lock_counter = (if src = None then 1 else 0)\<rparr>)\<rparr>)))"
proof (intro conjI impI)
  assume all: "\<forall>n\<in>set (list c). \<exists>ud. cnodes c n = Some ud \<and> lock_counter ud \<noteq> 0"
  have "\<forall>n\<in>set (rev (list c)). \<exists>r. libcache_get_unlock_node c n = Some r \<and> 0 < r"
    using all unlock_node_pinned by fastforce
  then have "list_reverse_foreach (list c) (libcache_get_unlock_node c) = Some None"
    unfolding list_reverse_foreach_def by (rule foreach_all_continue)
  then show "libcache_add (Some c) (Some k) src = Some (None, Some c)"
    using full miss by (simp add: libcache_add_def libcache_add_body_def)
next
  assume h: "list c = xs @ v # ys \<and> v \<notin> set xs
        \<and> (\<forall>n\<in>set ys. \<exists>ud. cnodes c n = Some ud \<and> lock_counter ud \<noteq> 0)
        \<and> cnodes c v = Some vd \<and> lock_counter vd = 0
        \<and> hash_node_ptr vd = Some hv \<and> pool_element_ptr vd = Some p
        \<and> hash_del (hash_table c) (Some (ud_key vd)) (Some hv) = Some (0, ht1)
        \<and> hash_add ht1 (Some k) (Some v) = Some (Some hn, ht2)
        \<and> key_size c \<le> length k \<and> key_size c \<le> length (ud_key vd)
        \<and> (\<forall>s. src = Some s \<longrightarrow>
              entry_size c \<le> length s \<and> entry_size c \<le> length (payload (pool c) p))"
  have "\<forall>n\<in>set (rev ys). \<exists>r. libcache_get_unlock_node c n = Some r \<and> 0 < r"
    using h unlock_node_pinned by fastforce
  moreover have "libcache_get_unlock_node c v = Some 0"
    using h by (simp add: libcache_get_unlock_node_def)
  ultimately have "foreach (libcache_get_unlock_node c) (rev ys @ v # rev xs) = Some (Some v)"
    by (rule foreach_first_stop)
  then have scan: "list_reverse_foreach (list c) (libcache_get_unlock_node c) = Some (Some v)"
    using h by (simp add: list_reverse_foreach_def)
  have rm: "list_remove (list c) v = Some (xs @ ys)"
    using h by (simp add: list_remove_def remove1_append)
  show "libcache_add (Some c) (Some k) src
          = Some (Some p,
              Some (c\<lparr>pool := (case src of None \<Rightarrow> pool c
                                | Some s \<Rightarrow> (pool c)\<lparr>payload := (payload (pool c))
                                    (p := take (entry_size c) s
                                          @ drop (entry_size c) (payload (pool c) p))\<rparr>),
                      hash_table := ht2,
                      list := v # xs @ ys,
                      cnodes := (cnodes c)(v \<mapsto>
                        \<lparr>ud_key = take (key_size c) k @ drop (key_size c) (ud_key vd),
                         hash_node_ptr = Some hn, pool_element_ptr = Some p,
                         lock_counter = (if src = None then 1 else 0)\<rparr>)\<rparr>))"
    using full miss scan rm h
    by (cases src; cases vd)
      (simp_all add: libcache_add_def libcache_add_body_def libcache_add_node_def
        list_push_front_def memcpy_def memset_def)
qed

lemma hash_del_success:
  assumes "key_to_hash ht key \<le> buckets_count ht"
    and "bucket_at ht (key_to_hash ht key) = Some b" and "blist b = Some bl"
    and "hv \<in> set bl" and "hnodes ht hv = Some hvd"
  shows "hash_del ht (Some key) (Some hv)
         = Some (0, ht\<lparr>bucket_list := (bucket_list ht)[unat (key_to_hash ht key) :=
                            \<lparr>list_count = list_count b - 1, blist = Some (remove1 hv bl)\<rparr>],
                        entry_count := entry_count ht - 1,
                        hnodes := (hnodes ht)(hv := None)\<rparr>)"
  using assms
  by (simp add: hash_del_def Let_def list_remove_def free_node_def not_less [symmetric])

lemma hash_add_success:
  assumes "key_to_hash ht k \<le> buckets_count ht"
    and "bucket_at ht (key_to_hash ht k) = Some b"
    and "h_key_size ht \<le> length k"
  shows "hash_add ht (Some k) cn
         = Some (Some (hnext ht),
             ht\<lparr>bucket_list := (bucket_list ht)[unat (key_to_hash ht k) :=
                    \<lparr>list_count = (case blist b of None \<Rightarrow> 0 | Some l \<Rightarrow> list_count b) + 1,
                     blist = Some ((case blist b of None \<Rightarrow> [] | Some l \<Rightarrow> l) @ [hnext ht])\<rparr>],
                entry_count := entry_count ht + 1,
                hnodes := (hnodes ht)(hnext ht \<mapsto>
                  \<lparr>hd_key = take (h_key_size ht) k, cache_node_ptr = cn\<rparr>),
                hnext := hnext ht + 1\<rparr>)"
  using assms
  by (simp add: hash_add_def Let_def list_push_back_def memcpy_def not_less [symmetric])

text \<open>
  Claim C2.  Let the list hold at least \<^verbatim>\<open>max_entry_number\<close> nodes and let \<^verbatim>\<open>hash_find\<close> miss
  the key.  When every node of the list is pinned, \<^verbatim>\<open>libcache_add\<close> returns \<^verbatim>\<open>NULL\<close> and
  leaves the cache as it is.  When \<open>v\<close> is the unpinned node nearest to the tail (all
  nodes \<open>ys\<close> behind it are pinned), its hash node lies in the bucket of its key, and the
  key and the entry hold \<^verbatim>\<open>key_size\<close> and \<^verbatim>\<open>entry_size\<close> bytes, then \<^verbatim>\<open>libcache_add\<close> removes
  \<open>v\<close> from the list; \<^verbatim>\<open>hash_del\<close> returns 0 and leaves the table \<open>ht1\<close>, which is the old
  table without the hash node of \<open>v\<close> in its bucket and in the store and with one entry
  less; \<^verbatim>\<open>hash_add\<close> returns a new hash node and leaves the table \<open>ht2\<close>, which is \<open>ht1\<close> with
  the new node appended to the bucket of the new key, stored with the key and a reference
  to \<open>v\<close>, and with one entry more; and \<open>v\<close> is pushed to the front of the list with the
  new key, the new hash node, its old pool element, the entry copied from \<open>src\<close> if there
  is one, and the pin-count 1 without \<open>src\<close> and 0 with it.  The address of the pool
  element is returned.
\<close>
theorem add_at_capacity:
  assumes full: "max_entry_number c \<le> length (list c)"
    and miss: "hash_find (hash_table c) (Some k) = Some None"
  shows "((\<forall>n\<in>set (list c). \<exists>ud. cnodes c n = Some ud \<and> lock_counter ud \<noteq> 0) \<longrightarrow>
            libcache_add (Some c) (Some k) src = Some (None, Some c))
    \<and> (list c = xs @ v # ys \<and> v \<notin> set xs
        \<and> (\<forall>n\<in>set ys. \<exists>ud. cnodes c n = Some ud \<and> lock_counter ud \<noteq> 0)
        \<and> cnodes c v = Some vd \<and> lock_counter vd = 0
        \<and> hash_node_ptr vd = Some hv \<and> pool_element_ptr vd = Some p
        \<and> key_to_hash (hash_table c) (ud_key vd) \<le> buckets_count (hash_table c)
        \<and> bucket_at (hash_table c) (key_to_hash (hash_table c) (ud_key vd)) = Some b
        \<and> blist b = Some bl \<and> hv \<in> set bl \<and> hnodes (hash_table c) hv = Some hvd
        \<and> key_to_hash (hash_table c) k \<le> buckets_count (hash_table c)
        \<and> unat (key_to_hash (hash_table c) k) < length (bucket_list (hash_table c))
        \<and> key_size c \<le> length k \<and> h_key_size (hash_table c) \<le> length k
        \<and> key_size c \<le> length (ud_key vd)
        \<and> (\<forall>s. src = Some s \<longrightarrow>
              entry_size c \<le> length s \<and> entry_size c \<le> length (payload (pool c) p)) \<longrightarrow>
        (\<exists>ht1 b2 ht2.
           hash_del (hash_table c) (Some (ud_key vd)) (Some hv) = Some (0, ht1)
         \<and> ht1 = (hash_table c)
                   \<lparr>bucket_list := (bucket_list (hash_table c))
                      [unat (key_to_hash (hash_table c) (ud_key vd)) :=
                         \<lparr>list_count = list_count b - 1, blist = Some (remove1 hv bl)\<rparr>],
                    entry_count := entry_count (hash_table c) - 1,
                    hnodes := (hnodes (hash_table c))(hv := None)\<rparr>
         \<and> bucket_at ht1 (key_to_hash (hash_table c) k) = Some b2
         \<and> hash_add ht1 (Some k) (Some v) = Some (Some (hnext (hash_table c)), ht2)
         \<and> ht2 = ht1
                   \<lparr>bucket_list := (bucket_list ht1)
                      [unat (key_to_hash (hash_table c) k) :=
                         \<lparr>list_count = (case blist b2 of None \<Rightarrow> 0 | Some l \<Rightarrow> list_count b2) + 1,
                          blist = Some ((case blist b2 of None \<Rightarrow> [] | Some l \<Rightarrow> l)
                                        @ [hnext (hash_table c)])\<rparr>],
                    entry_count := entry_count (hash_table c),
                    hnodes := (hnodes ht1)(hnext (hash_table c) \<mapsto>
                      \<lparr>hd_key = take (h_key_size (hash_table c)) k, cache_node_ptr = Some v\<rparr>),
                    hnext := hnext (hash_table c) + 1\<rparr>
         \<and> bucket_at ht2 (key_to_hash (hash_table c) k)
            = Some \<lparr>list_count = (case blist b2 of None \<Rightarrow> 0 | Some l \<Rightarrow> list_count b2) + 1,
                    blist = Some ((case blist b2 of None \<Rightarrow> [] | Some l \<Rightarrow> l)
                                  @ [hnext (hash_table c)])\<rparr>
         \<and> hnodes ht2 (hnext (hash_table c))
            = Some \<lparr>hd_key = take (h_key_size (hash_table c)) k, cache_node_ptr = Some v\<rparr>
         \<and> libcache_add (Some c) (Some k) src
            = Some (Some p,
                Some (c\<lparr>pool := (case src of None \<Rightarrow> pool c
                                  | Some s \<Rightarrow> (pool c)\<lparr>payload := (payload (pool c))
                                      (p := take (entry_size c) s
                                            @ drop (entry_size c) (payload (pool c) p))\<rparr>),
                        hash_table := ht2,
                        list := v # xs @ ys,
                        cnodes := (cnodes c)(v \<mapsto>
                          \<lparr>ud_key = take (key_size c) k @ drop (key_size c) (ud_key vd),
                           hash_node_ptr = Some (hnext (hash_table c)),
                           pool_element_ptr = Some p,
                           lock_counter = (if src = None then 1 else 0)\<rparr>)\<rparr>))))"
proof (intro conjI impI)
  assume "\<forall>n\<in>set (list c). \<exists>ud. cnodes c n = Some ud \<and> lock_counter ud \<noteq> 0"
  then show "libcache_add (Some c) (Some k) src = Some (None, Some c)"
    using add_full_cache_step [OF full miss] by blast
next
  let ?ht = "hash_table c"
  let ?iv = "unat (key_to_hash ?ht (ud_key vd))"
  let ?ik = "unat (key_to_hash ?ht k)"
  assume h: "list c = xs @ v # ys \<and> v \<notin> set xs
        \<and> (\<forall>n\<in>set ys. \<exists>ud. cnodes c n = Some ud \<and> lock_counter ud \<noteq> 0)
        \<and> cnodes c v = Some vd \<and> lock_counter vd = 0
        \<and> hash_node_ptr vd = Some hv \<and> pool_element_ptr vd = Some p
        \<and> key_to_hash ?ht (ud_key vd) \<le> buckets_count ?ht
        \<and> bucket_at ?ht (key_to_hash ?ht (ud_key vd)) = Some b
        \<and> blist b = Some bl \<and> hv \<in> set bl \<and> hnodes ?ht hv = Some hvd
        \<and> key_to_hash ?ht k \<le> buckets_count ?ht
        \<and> ?ik < length (bucket_list ?ht)
        \<and> key_size c \<le> length k \<and> h_key_size ?ht \<le> length k
        \<and> key_size c \<le> length (ud_key vd)
        \<and> (\<forall>s. src = Some s \<longrightarrow>
              entry_size c \<le> length s \<and> entry_size c \<le> length (payload (pool c) p))"
  define ht1 where "ht1 = ?ht\<lparr>bucket_list := (bucket_list ?ht)[?iv :=
                            \<lparr>list_count = list_count b - 1, blist = Some (remove1 hv bl)\<rparr>],
                        entry_count := entry_count ?ht - 1,
                        hnodes := (hnodes ?ht)(hv := None)\<rparr>"
  have del: "hash_del ?ht (Some (ud_key vd)) (Some hv) = Some (0, ht1)"
    unfolding ht1_def using h by (intro hash_del_success) simp_all
  have kh: "key_to_hash ht1 k = key_to_hash ?ht k"
    by (simp add: ht1_def key_to_hash_def)
  have same: "hnext ht1 = hnext ?ht" "h_key_size ht1 = h_key_size ?ht"
    "entry_count ht1 + 1 = entry_count ?ht" "buckets_count ht1 = buckets_count ?ht"
    "length (bucket_list ht1) = length (bucket_list ?ht)"
    by (simp_all add: ht1_def)
  define b2 where "b2 = bucket_list ht1 ! ?ik"
  have bk: "bucket_at ht1 (key_to_hash ?ht k) = Some b2"
    using h by (simp add: bucket_at_def same b2_def)
  define ht2 where "ht2 = ht1\<lparr>bucket_list := (bucket_list ht1)[?ik :=
                         \<lparr>list_count = (case blist b2 of None \<Rightarrow> 0 | Some l \<Rightarrow> list_count b2) + 1,
                          blist = Some ((case blist b2 of None \<Rightarrow> [] | Some l \<Rightarrow> l)
                                        @ [hnext ?ht])\<rparr>],
                    entry_count := entry_count ?ht,
                    hnodes := (hnodes ht1)(hnext ?ht \<mapsto>
                      \<lparr>hd_key = take (h_key_size ?ht) k, cache_node_ptr = Some v\<rparr>),
                    hnext := hnext ?ht + 1\<rparr>"
  have "hash_add ht1 (Some k) (Some v)
         = Some (Some (hnext ht1),
             ht1\<lparr>bucket_list := (bucket_list ht1)[unat (key_to_hash ht1 k) :=
                    \<lparr>list_count = (case blist b2 of None \<Rightarrow> 0 | Some l \<Rightarrow> list_count b2) + 1,
                     blist = Some ((case blist b2 of None \<Rightarrow> [] | Some l \<Rightarrow> l) @ [hnext ht1])\<rparr>],
                entry_count := entry_count ht1 + 1,
                hnodes := (hnodes ht1)(hnext ht1 \<mapsto>
                  \<lparr>hd_key = take (h_key_size ht1) k, cache_node_ptr = Some v\<rparr>),
                hnext := hnext ht1 + 1\<rparr>)"
    using h bk by (intro hash_add_success) (simp_all add: kh same)
  then have add: "hash_add ht1 (Some k) (Some v) = Some (Some (hnext ?ht), ht2)"
    by (simp only: kh same ht2_def)
  have b2': "bucket_at ht2 (key_to_hash ?ht k)
            = Some \<lparr>list_count = (case blist b2 of None \<Rightarrow> 0 | Some l \<Rightarrow> list_count b2) + 1,
                    blist = Some ((case blist b2 of None \<Rightarrow> [] | Some l \<Rightarrow> l) @ [hnext ?ht])\<rparr>"
    using h by (simp add: ht2_def bucket_at_def same)
  have n2: "hnodes ht2 (hnext ?ht)
            = Some \<lparr>hd_key = take (h_key_size ?ht) k, cache_node_ptr = Some v\<rparr>"
    by (simp add: ht2_def)
  have step: "libcache_add (Some c) (Some k) src
            = Some (Some p,
                Some (c\<lparr>pool := (case src of None \<Rightarrow> pool c
                                  | Some s \<Rightarrow> (pool c)\<lparr>payload := (payload (pool c))
                                      (p := take (entry_size c) s
                                            @ drop (entry_size c) (payload (pool c) p))\<rparr>),
                        hash_table := ht2,
                        list := v # xs @ ys,
                        cnodes := (cnodes c)(v \<mapsto>
                          \<lparr>ud_key = take (key_size c) k @ drop (key_size c) (ud_key vd),
                           hash_node_ptr = Some (hnext ?ht),
                           pool_element_ptr = Some p,
                           lock_counter = (if src = None then 1 else 0)\<rparr>)\<rparr>))"
    using add_full_cache_step [OF full miss, of src xs v ys vd hv p ht1 "hnext ?ht" ht2]
      h del add by simp
  show "\<exists>ht1 b2 ht2.
           hash_del ?ht (Some (ud_key vd)) (Some hv) = Some (0, ht1)
         \<and> ht1 = ?ht
                   \<lparr>bucket_list := (bucket_list ?ht)
                      [?iv :=
                         \<lparr>list_count = list_count b - 1, blist = Some (remove1 hv bl)\<rparr>],
                    entry_count := entry_count ?ht - 1,
                    hnodes := (hnodes ?ht)(hv := None)\<rparr>
         \<and> bucket_at ht1 (key_to_hash ?ht k) = Some b2
         \<and> hash_add ht1 (Some k) (Some v) = Some (Some (hnext ?ht), ht2)
         \<and> ht2 = ht1
                   \<lparr>bucket_list := (bucket_list ht1)
                      [?ik :=
                         \<lparr>list_count = (case blist b2 of None \<Rightarrow> 0 | Some l \<Rightarrow> list_count b2) + 1,
                          blist = Some ((case blist b2 of None \<Rightarrow> [] | Some l \<Rightarrow> l)
                                        @ [hnext ?ht])\<rparr>],
                    entry_count := entry_count ?ht,
                    hnodes := (hnodes ht1)(hnext ?ht \<mapsto>
                      \<lparr>hd_key = take (h_key_size ?ht) k, cache_node_ptr = Some v\<rparr>),
                    hnext := hnext ?ht + 1\<rparr>
         \<and> bucket_at ht2 (key_to_hash ?ht k)
            = Some \<lparr>list_count = (case blist b2 of None \<Rightarrow> 0 | Some l \<Rightarrow> list_count b2) + 1,
                    blist = Some ((case blist b2 of None \<Rightarrow> [] | Some l \<Rightarrow> l)
                                  @ [hnext ?ht])\<rparr>
         \<and> hnodes ht2 (hnext ?ht)
            = Some \<lparr>hd_key = take (h_key_size ?ht) k, cache_node_ptr = Some v\<rparr>
         \<and> libcache_add (Some c) (Some k) src
            = Some (Some p,
                Some (c\<lparr>pool := (case src of None \<Rightarrow> pool c
                                  | Some s \<Rightarrow> (pool c)\<lparr>payload := (payload (pool c))
                                      (p := take (entry_size c) s
                                            @ drop (entry_size c) (payload (pool c) p))\<rparr>),
                        hash_table := ht2,
                        list := v # xs @ ys,
                        cnodes := (cnodes c)(v \<mapsto>
                          \<lparr>ud_key = take (key_size c) k @ drop (key_size c) (ud_key vd),
                           hash_node_ptr = Some (hnext ?ht),
                           pool_element_ptr = Some p,
                           lock_counter = (if src = None then 1 else 0)\<rparr>)\<rparr>))"
    by (intro exI [of _ ht1] exI [of _ b2] exI [of _ ht2] conjI del ht1_def bk add ht2_def
        b2' n2 step)
qed

lemma add_C_k7:
  "libcache_add (Some cache_C) (Some k7) (Some [5, 6, 7, 8]) = Some (Some 1004, Some cache_E)"
  by (simp add: cache_defs hash_defs pool_defs key_defs cache_C_def hash_C_def cache_E_def
      hash_E_def Let_def)

theorem add_at_capacity_witness:
  "max_entry_number cache_D \<le> length (list cache_D)
   \<and> hash_find (hash_table cache_D) (Some k3) = Some None
   \<and> libcache_add (Some cache_D) (Some k3) None = Some (None, Some cache_D)
   \<and> max_entry_number cache_C \<le> length (list cache_C)
   \<and> hash_find (hash_table cache_C) (Some k7) = Some None
   \<and> list cache_C = [] @ 1 # [0]
   \<and> libcache_add (Some cache_C) (Some k7) (Some [5, 6, 7, 8]) = Some (Some 1004, Some cache_E)
   \<and> list cache_E = [1, 0]
   \<and> bucket_at (hash_table cache_E) (key_to_hash (hash_table cache_C) k7)
      = Some \<lparr>list_count = 1, blist = Some [2]\<rparr>
   \<and> hnodes (hash_table cache_E) 2 = Some \<lparr>hd_key = k7, cache_node_ptr = Some 1\<rparr>
   \<and> hnodes (hash_table cache_E) 1 = None"
proof -
  have fullD: "max_entry_number cache_D \<le> length (list cache_D)"
    by (simp add: cache_D_def)
  have missD: "hash_find (hash_table cache_D) (Some k3) = Some None"
    by (simp add: cache_D_def hash_find_D_k3)
  have pinned: "\<forall>n\<in>set (list cache_D). \<exists>ud. cnodes cache_D n = Some ud \<and> lock_counter ud \<noteq> 0"
    by (simp add: cache_D_def)
  have D: "libcache_add (Some cache_D) (Some k3) None = Some (None, Some cache_D)"
    using add_at_capacity [OF fullD missD, where src = None] pinned by blast
  have fullC: "max_entry_number cache_C \<le> length (list cache_C)"
    by (simp add: cache_C_def)
  have missC: "hash_find (hash_table cache_C) (Some k7) = Some None"
    by (simp add: cache_C_def hash_find_C_k7)
  let ?vd = "\<lparr>ud_key = k3, hash_node_ptr = Some 1, pool_element_ptr = Some 1004, lock_counter = 0\<rparr>"
  let ?b = "\<lparr>list_count = 1, blist = Some [1]\<rparr>"
  let ?hvd = "\<lparr>hd_key = k3, cache_node_ptr = Some 1\<rparr>"
  have hyps: "list cache_C = [] @ 1 # [0] \<and> 1 \<notin> set []
        \<and> (\<forall>n\<in>set [0]. \<exists>ud. cnodes cache_C n = Some ud \<and> lock_counter ud \<noteq> 0)
        \<and> cnodes cache_C 1 = Some ?vd \<and> lock_counter ?vd = 0
        \<and> hash_node_ptr ?vd = Some 1 \<and> pool_element_ptr ?vd = Some 1004
        \<and> key_to_hash (hash_table cache_C) (ud_key ?vd) \<le> buckets_count (hash_table cache_C)
        \<and> bucket_at (hash_table cache_C) (key_to_hash (hash_table cache_C) (ud_key ?vd)) = Some ?b
        \<and> blist ?b = Some [1] \<and> 1 \<in> set [1] \<and> hnodes (hash_table cache_C) 1 = Some ?hvd
        \<and> key_to_hash (hash_table cache_C) k7 \<le> buckets_count (hash_table cache_C)
        \<and> unat (key_to_hash (hash_table cache_C) k7) < length (bucket_list (hash_table cache_C))
        \<and> key_size cache_C \<le> length k7 \<and> h_key_size (hash_table cache_C) \<le> length k7
        \<and> key_size cache_C \<le> length (ud_key ?vd)
        \<and> (\<forall>s. Some [5, 6, 7, 8] = Some s \<longrightarrow>
              entry_size cache_C \<le> length s
              \<and> entry_size cache_C \<le> length (payload (pool cache_C) 1004))"
    by (simp add: cache_C_def hash_C_def hash_defs key_defs Let_def)
  note t = add_at_capacity [OF fullC missC, where src = "Some [5, 6, 7, 8]" and xs = "[]" and v = 1
      and ys = "[0]" and vd = ?vd and hv = 1 and p = 1004 and b = ?b and bl = "[1]"
      and hvd = ?hvd]
  note ex = mp [OF conjunct2 [OF t] hyps]
  have L: "list cache_C = [] @ 1 # [0]" by (simp add: cache_C_def)
  have kh: "key_to_hash (hash_table cache_C) k7 = 1" "key_to_hash (hash_table cache_C) k3 = 3"
    by (simp_all add: cache_C_def hash_C_def hash_defs key_defs Let_def)
  have hn: "[(0 :: nat) \<mapsto> \<lparr>hd_key = k5, cache_node_ptr = Some 0\<rparr>,
             1 \<mapsto> \<lparr>hd_key = k3, cache_node_ptr = Some 1\<rparr>](1 := None)
            = [0 \<mapsto> \<lparr>hd_key = k5, cache_node_ptr = Some (0 :: nat)\<rparr>]"
    by (auto simp: fun_eq_iff)
  from ex show ?thesis
  proof (elim exE conjE)
    fix ht1 b2 ht2
    assume e1: "ht1 = (hash_table cache_C)
                   \<lparr>bucket_list := (bucket_list (hash_table cache_C))
                      [unat (key_to_hash (hash_table cache_C) (ud_key ?vd)) :=
                         \<lparr>list_count = list_count ?b - 1, blist = Some (remove1 1 [1])\<rparr>],
                    entry_count := entry_count (hash_table cache_C) - 1,
                    hnodes := (hnodes (hash_table cache_C))(1 := None)\<rparr>"
      and bk: "bucket_at ht1 (key_to_hash (hash_table cache_C) k7) = Some b2"
      and e2: "ht2 = ht1
                   \<lparr>bucket_list := (bucket_list ht1)
                      [unat (key_to_hash (hash_table cache_C) k7) :=
                         \<lparr>list_count = (case blist b2 of None \<Rightarrow> 0 | Some l \<Rightarrow> list_count b2) + 1,
                          blist = Some ((case blist b2 of None \<Rightarrow> [] | Some l \<Rightarrow> l)
                                        @ [hnext (hash_table cache_C)])\<rparr>],
                    entry_count := entry_count (hash_table cache_C),
                    hnodes := (hnodes ht1)(hnext (hash_table cache_C) \<mapsto>
                      \<lparr>hd_key = take (h_key_size (hash_table cache_C)) k7, cache_node_ptr = Some 1\<rparr>),
                    hnext := hnext (hash_table cache_C) + 1\<rparr>"
      and r: "libcache_add (Some cache_C) (Some k7) (Some [5, 6, 7, 8])
            = Some (Some 1004,
                Some (cache_C\<lparr>pool := (case Some [5, 6, 7, 8] of None \<Rightarrow> pool cache_C
                                  | Some s \<Rightarrow> (pool cache_C)\<lparr>payload := (payload (pool cache_C))
                                      (1004 := take (entry_size cache_C) s
                                            @ drop (entry_size cache_C) (payload (pool cache_C) 1004))\<rparr>),
                        hash_table := ht2,
                        list := 1 # [] @ [0],
                        cnodes := (cnodes cache_C)(1 \<mapsto>
                          \<lparr>ud_key = take (key_size cache_C) k7 @ drop (key_size cache_C) (ud_key ?vd),
                           hash_node_ptr = Some (hnext (hash_table cache_C)),
                           pool_element_ptr = Some 1004,
                           lock_counter = (if Some [5, 6, 7, 8] = (None :: byte list option) then 1 else 0)\<rparr>)\<rparr>))"
    have h1: "ht1 = hash_C\<lparr>bucket_list := [\<lparr>list_count = 1, blist = Some [0]\<rparr>, empty_bucket,
                                           empty_bucket, \<lparr>list_count = 0, blist = Some []\<rparr>],
                           entry_count := 1,
                           hnodes := [0 \<mapsto> \<lparr>hd_key = k5, cache_node_ptr = Some 0\<rparr>]\<rparr>"
      unfolding e1 by (simp add: kh) (simp add: cache_C_def hash_C_def hn)
    have b2: "b2 = empty_bucket"
      using bk unfolding kh h1 by (simp add: bucket_at_def hash_C_def)
    have h2: "ht2 = hash_E"
      unfolding e2 kh b2 h1
      by (simp add: cache_C_def hash_C_def hash_E_def empty_bucket_def key_defs)
    have R: "libcache_add (Some cache_C) (Some k7) (Some [5, 6, 7, 8])
             = Some (Some 1004, Some cache_E)"
      unfolding r h2 by (simp add: cache_C_def cache_E_def hash_C_def key_defs)
    have E: "list cache_E = [1, 0]"
      "bucket_at (hash_table cache_E) (key_to_hash (hash_table cache_C) k7)
        = Some \<lparr>list_count = 1, blist = Some [2]\<rparr>"
      "hnodes (hash_table cache_E) 2 = Some \<lparr>hd_key = k7, cache_node_ptr = Some 1\<rparr>"
      "hnodes (hash_table cache_E) 1 = None"
      unfolding kh by (simp_all add: cache_E_def hash_E_def bucket_at_def)
    show ?thesis
      by (intro conjI fullD missD D fullC missC R L E)
  qed
qed

section \<open>The front of the LRU list\<close>

text \<open>What each call does to the list, to the node store and to the next address of
  \<^verbatim>\<open>malloc\<close>.\<close>
lemma lookup_effect:
  assumes "libcache_lookup (Some c) (Some k) dst = Some (r, w, Some c')"
  shows "(r = None \<and> c' = c)
       \<or> (\<exists>n ud. lookup_node c k = Some n \<and> n \<in> set (list c) \<and> cnodes c n = Some ud
             \<and> list c' = n # remove1 n (list c) \<and> cnext c' = cnext c
             \<and> (cnodes c' = cnodes c
                \<or> cnodes c' = (cnodes c)(n \<mapsto> ud\<lparr>lock_counter := lock_counter ud + 1\<rparr>))
             \<and> (r = None \<longrightarrow> pool_element_ptr ud = None))"
  using assms
  by (auto simp: libcache_lookup_def libcache_lookup_body_def lookup_node_def list_remove_def
      list_push_front_def split: option.splits if_splits prod.splits)

lemma add_node_effect:
  assumes "libcache_add_node c1 node new k src = Some (r, c')"
  shows "cnext c' = cnext c1
       \<and> ((new \<and> r = None \<and> list c' = list c1 \<and> cnodes c' = (cnodes c1)(node := None))
          \<or> (\<exists>ud ud'. cnodes c1 node = Some ud \<and> list c' = node # list c1
                \<and> cnodes c' = (cnodes c1)(node \<mapsto> ud') \<and> pool_element_ptr ud' = r
                \<and> (new \<longrightarrow> r \<noteq> None) \<and> (\<not> new \<longrightarrow> r = pool_element_ptr ud)
                \<and> take (key_size c1) (ud_key ud') = take (key_size c1) k
                \<and> lock_counter ud' = (if src = None then 1 else 0)))"
  using assms
  by (auto simp: libcache_add_node_def Let_def list_push_front_def list_pop_front_def memcpy_def
      pool_set_reserved_pointer_def
      split: option.splits if_splits prod.splits return_t.splits)

lemma add_effect:
  assumes "libcache_add (Some c) (Some k) src = Some (r, Some c')"
  shows "(r = None \<and> c' = c)
       \<or> (max_entry_number c \<le> length (list c)
          \<and> (\<exists>v vd ud'. add_node_chosen c = Some v \<and> v \<in> set (list c) \<and> cnodes c v = Some vd
                \<and> list c' = v # remove1 v (list c) \<and> cnext c' = cnext c
                \<and> cnodes c' = (cnodes c)(v \<mapsto> ud')
                \<and> pool_element_ptr ud' = r \<and> r = pool_element_ptr vd
                \<and> take (key_size c) (ud_key ud') = take (key_size c) k
                \<and> lock_counter ud' = (if src = None then 1 else 0)))
       \<or> (\<not> max_entry_number c \<le> length (list c)
          \<and> add_node_chosen c = Some (cnext c) \<and> cnext c' = cnext c + 1
          \<and> ((r = None \<and> list c' = list c \<and> cnodes c' = (cnodes c)(cnext c := None))
             \<or> (\<exists>ud'. r \<noteq> None \<and> list c' = cnext c # list c
                   \<and> cnodes c' = (cnodes c)(cnext c \<mapsto> ud') \<and> pool_element_ptr ud' = r
                   \<and> take (key_size c) (ud_key ud') = take (key_size c) k
                   \<and> lock_counter ud' = (if src = None then 1 else 0))))"
proof -
  from assms have body: "libcache_add_body c k src = Some (r, c')"
    by (auto simp: libcache_add_def split: option.splits)
  from body obtain hr where hf: "hash_find (hash_table c) (Some k) = Some hr"
    by (cases "hash_find (hash_table c) (Some k)") (simp_all add: libcache_add_body_def)
  show ?thesis
  proof (cases hr)
    case (Some hash_node)
    with body hf show ?thesis by (simp add: libcache_add_body_def)
  next
    case None
    note hf = hf [unfolded None]
    show ?thesis
    proof (cases "max_entry_number c \<le> length (list c)")
      case True
      from body hf True obtain sr where
        scan: "list_reverse_foreach (list c) (libcache_get_unlock_node c) = Some sr"
        by (cases "list_reverse_foreach (list c) (libcache_get_unlock_node c)")
          (simp_all add: libcache_add_body_def)
      show ?thesis
      proof (cases sr)
        case None
        with body hf True scan show ?thesis by (simp add: libcache_add_body_def)
      next
        case (Some v)
        note scan = scan [unfolded Some]
        from body hf True scan obtain l where rm: "list_remove (list c) v = Some l"
          by (cases "list_remove (list c) v") (simp_all add: libcache_add_body_def)
        from body hf True scan rm obtain vd where vd: "cnodes c v = Some vd"
          by (cases "cnodes c v") (simp_all add: libcache_add_body_def)
        from body hf True scan rm vd obtain rr ht where
          del: "hash_del (hash_table c) (Some (ud_key vd)) (hash_node_ptr vd) = Some (rr, ht)"
          by (cases "hash_del (hash_table c) (Some (ud_key vd)) (hash_node_ptr vd)")
            (auto simp: libcache_add_body_def)
        from body hf True scan rm vd del obtain zeroed where
          z: "memset (ud_key vd) 0 (key_size c) = Some zeroed"
          by (cases "memset (ud_key vd) 0 (key_size c)") (simp_all add: libcache_add_body_def)
        let ?c1 = "c\<lparr>list := l, hash_table := ht,
                     cnodes := (cnodes c)(v \<mapsto> vd\<lparr>ud_key := zeroed\<rparr>)\<rparr>"
        from body hf True scan rm vd del z have
          a: "libcache_add_node ?c1 v False k src = Some (r, c')"
          by (simp add: libcache_add_body_def)
        have mem: "v \<in> set (list c)" and l: "l = remove1 v (list c)"
          using rm by (auto simp: list_remove_def split: if_splits)
        have ch: "add_node_chosen c = Some v"
          using True scan by (simp add: add_node_chosen_def)
        from add_node_effect [OF a] obtain ud' where
          "cnext c' = cnext c" "list c' = v # l" "cnodes c' = (cnodes c)(v \<mapsto> ud')"
          "pool_element_ptr ud' = r" "r = pool_element_ptr vd"
          "take (key_size c) (ud_key ud') = take (key_size c) k"
          "lock_counter ud' = (if src = None then 1 else 0)"
          by auto
        with True mem l vd ch show ?thesis by auto
      qed
    next
      case False
      let ?c1 = "c\<lparr>cnodes := (cnodes c)(cnext c \<mapsto>
                    \<lparr>ud_key = replicate (key_size c) 0, hash_node_ptr = None,
                     pool_element_ptr = None, lock_counter = 0\<rparr>),
                 cnext := cnext c + 1\<rparr>"
      from body hf False have a: "libcache_add_node ?c1 (cnext c) True k src = Some (r, c')"
        by (simp add: libcache_add_body_def)
      have ch: "add_node_chosen c = Some (cnext c)"
        using False by (simp add: add_node_chosen_def)
      from add_node_effect [OF a] have
        "cnext c' = cnext c + 1
         \<and> ((r = None \<and> list c' = list c \<and> cnodes c' = (cnodes c)(cnext c := None))
            \<or> (\<exists>ud'. r \<noteq> None \<and> list c' = cnext c # list c
                  \<and> cnodes c' = (cnodes c)(cnext c \<mapsto> ud') \<and> pool_element_ptr ud' = r
                  \<and> take (key_size c) (ud_key ud') = take (key_size c) k
                  \<and> lock_counter ud' = (if src = None then 1 else 0)))"
        by auto
      with False ch show ?thesis by blast
    qed
  qed
qed

lemma delete_by_key_effect:
  assumes "libcache_delete_by_key (Some c) (Some k) = Some (r, Some c')"
  shows "if r = LIBCACHE_SUCCESS
         then (\<exists>n. lookup_node c k = Some n \<and> n \<in> set (list c)
                 \<and> list c' = remove1 n (list c) \<and> cnodes c' = (cnodes c)(n := None)
                 \<and> cnext c' = cnext c)
         else c' = c"
  using assms
  by (auto simp: libcache_delete_by_key_def libcache_delete_by_key_body_def lookup_node_def
      list_remove_def split: option.splits if_splits prod.splits)

lemma delete_entry_effect:
  assumes "libcache_delete_entry (Some c) e = Some (r, Some c')"
  shows "if r = LIBCACHE_SUCCESS
         then (\<exists>m ud hn hdata n.
                 pool_get_reserved_pointer (pool c) e = Some m \<and> cnodes c m = Some ud
                 \<and> hash_node_ptr ud = Some hn \<and> hnodes (hash_table c) hn = Some hdata
                 \<and> lookup_node c (hd_key hdata) = Some n \<and> n \<in> set (list c)
                 \<and> list c' = remove1 n (list c) \<and> cnodes c' = (cnodes c)(n := None)
                 \<and> cnext c' = cnext c)
         else c' = c"
proof (cases "pool_get_reserved_pointer (pool c) e")
  case None
  with assms show ?thesis by (auto simp: libcache_delete_entry_def)
next
  case (Some m)
  with assms obtain ud where ud: "cnodes c m = Some ud"
    by (cases "cnodes c m") (simp_all add: libcache_delete_entry_def)
  show ?thesis
  proof (cases "lock_counter ud > 0")
    case True
    with assms Some ud show ?thesis by (auto simp: libcache_delete_entry_def)
  next
    case False
    with assms Some ud obtain hn where hn: "hash_node_ptr ud = Some hn"
      by (cases "hash_node_ptr ud") (simp_all add: libcache_delete_entry_def)
    with assms Some ud False obtain hdata where hd: "hnodes (hash_table c) hn = Some hdata"
      by (cases "hnodes (hash_table c) hn") (simp_all add: libcache_delete_entry_def)
    with assms Some ud False hn have
      "libcache_delete_by_key (Some c) (Some (hd_key hdata)) = Some (r, Some c')"
      by (simp add: libcache_delete_entry_def)
    from delete_by_key_effect [OF this] Some ud hn hd show ?thesis
      by (auto split: if_splits)
  qed
qed

lemma unlock_effect:
  assumes "libcache_unlock_entry (Some c) e = Some (r, Some c')"
  shows "list c' = list c \<and> cnext c' = cnext c
       \<and> (\<forall>m. map_option pool_element_ptr (cnodes c' m)
               = map_option pool_element_ptr (cnodes c m))"
  using assms
  by (auto simp: libcache_unlock_entry_def split: option.splits if_splits)

lemma clean_loop_effect:
  "libcache_clean_loop c = Some (r, c') \<Longrightarrow>
   \<exists>popped. list c = popped @ list c' \<and> cnext c' = cnext c
     \<and> (\<forall>m. m \<notin> set popped \<longrightarrow> cnodes c' m = cnodes c m)
     \<and> (r = LIBCACHE_SUCCESS \<longrightarrow> list c' = [])"
proof (induction "length (list c)" arbitrary: c)
  case 0
  then have "c' = c"
    by (subst (asm) libcache_clean_loop.simps) (simp add: list_pop_front_def)
  with 0 show ?case by simp
next
  case (Suc m)
  then obtain n l where Cons: "list c = n # l" by (cases "list c") auto
  from Suc(3) obtain ud where ud: "cnodes c n = Some ud"
    by (subst (asm) libcache_clean_loop.simps)
      (auto simp: list_pop_front_def Cons split: option.splits)
  obtain rr p where fr: "libpool_free_element (pool c) (pool_element_ptr ud) = (rr, p)"
    by (cases "libpool_free_element (pool c) (pool_element_ptr ud)")
  show ?case
  proof (cases rr)
    case ERR
    with Suc(3) ud fr Cons have "r = LIBCACHE_FAILURE" "c' = c\<lparr>list := l, pool := p\<rparr>"
      by (subst (asm) libcache_clean_loop.simps, simp add: list_pop_front_def)+
    then show ?thesis using Cons by (intro exI [of _ "[n]"]) simp
  next
    case OK
    let ?c1 = "c\<lparr>list := l, pool := p, cnodes := (cnodes c)(n := None)\<rparr>"
    from OK Suc(3) ud fr Cons have "libcache_clean_loop ?c1 = Some (r, c')"
      by (subst (asm) libcache_clean_loop.simps) (simp add: list_pop_front_def)
    moreover have "m = length (list ?c1)"
      using Suc(2) Cons by simp
    ultimately obtain popped where
      "list ?c1 = popped @ list c'" "cnext c' = cnext ?c1"
      "\<forall>m. m \<notin> set popped \<longrightarrow> cnodes c' m = cnodes ?c1 m"
      "r = LIBCACHE_SUCCESS \<longrightarrow> list c' = []"
      using Suc(1) [of ?c1] by blast
    then show ?thesis using Cons by (intro exI [of _ "n # popped"]) auto
  qed
qed

lemma clean_effect:
  assumes "libcache_clean (Some c) = Some (r, Some c')"
  shows "\<exists>popped. list c = popped @ list c' \<and> cnext c' = cnext c
     \<and> (\<forall>m. m \<notin> set popped \<longrightarrow> cnodes c' m = cnodes c m)
     \<and> (r = LIBCACHE_SUCCESS \<longrightarrow> list c' = [])"
  using assms clean_loop_effect [of c r c']
  by (auto simp: libcache_clean_def split: option.splits)

lemma stamps_distinct: "sorted_wrt (\<lambda>a b. f b < (f a :: nat)) l \<Longrightarrow> distinct l"
  by (induction l) auto

lemma lru_orderedD:
  assumes "lru_ordered t"
  shows "sorted_wrt (\<lambda>a b. stamp t b < stamp t a) (list (tcache t))"
    and "distinct (list (tcache t))"
    and "n \<in> set (list (tcache t)) \<Longrightarrow> stamp t n < clock t"
    and "n \<in> set (list (tcache t)) \<Longrightarrow> n < cnext (tcache t)"
    and "n \<in> set (list (tcache t)) \<Longrightarrow>
         \<exists>ud a. cnodes (tcache t) n = Some ud \<and> pool_element_ptr ud = Some a"
  using assms stamps_distinct [of "stamp t" "list (tcache t)"]
  by (auto simp: lru_ordered_def list_all_iff split: option.splits)

lemma lru_orderedI:
  assumes "sorted_wrt (\<lambda>a b. stamp t b < stamp t a) (list (tcache t))"
    and "\<And>n. n \<in> set (list (tcache t)) \<Longrightarrow> stamp t n < clock t"
    and "\<And>n. n \<in> set (list (tcache t)) \<Longrightarrow> n < cnext (tcache t)"
    and "\<And>n. n \<in> set (list (tcache t)) \<Longrightarrow>
         \<exists>ud a. cnodes (tcache t) n = Some ud \<and> pool_element_ptr ud = Some a"
  shows "lru_ordered t"
  unfolding lru_ordered_def list_all_iff
proof (intro conjI ballI)
  show "sorted_wrt (\<lambda>a b. stamp t b < stamp t a) (list (tcache t))" by (rule assms(1))
  fix n assume n: "n \<in> set (list (tcache t))"
  show "stamp t n < clock t" by (rule assms(2) [OF n])
  show "n < cnext (tcache t)" by (rule assms(3) [OF n])
  from assms(4) [OF n] show "case cnodes (tcache t) n of None \<Rightarrow> False
                              | Some ud \<Rightarrow> pool_element_ptr ud \<noteq> None"
    by auto
qed

lemma subseq_mem: "subseq xs ys \<Longrightarrow> x \<in> set xs \<Longrightarrow> x \<in> set ys"
  by (induction rule: list_emb.induct) auto

lemma sorted_wrt_subseq: "subseq xs ys \<Longrightarrow> sorted_wrt P ys \<Longrightarrow> sorted_wrt P xs"
  by (induction rule: list_emb.induct) (auto dest: subseq_mem)

lemma subseq_remove1: "subseq (remove1 n l) l"
  by (induction l) auto

lemma subseq_suffix: "subseq ys (xs @ ys)"
  by (induction xs) auto

text \<open>A call that touches nothing, takes nodes out of the list without reordering the
  others and leaves the remaining nodes allocated keeps the order.\<close>
lemma lru_ordered_keep:
  assumes o: "lru_ordered t"
    and sub: "subseq (list c') (list (tcache t))"
    and nx: "cnext (tcache t) \<le> cnext c'"
    and al: "\<And>n. n \<in> set (list c') \<Longrightarrow>
              map_option pool_element_ptr (cnodes c' n)
              = map_option pool_element_ptr (cnodes (tcache t) n)"
  shows "lru_ordered (touch t None c')"
proof (rule lru_orderedI)
  let ?t = "touch t None c'"
  have t: "tcache ?t = c'" "stamp ?t = stamp t" "clock ?t = clock t"
    by (simp_all add: touch_def)
  have mem: "n \<in> set (list (tcache t))" if "n \<in> set (list c')" for n
    using sub that by (rule subseq_mem)
  show "sorted_wrt (\<lambda>a b. stamp ?t b < stamp ?t a) (list (tcache ?t))"
    unfolding t using sub lru_orderedD(1) [OF o] by (rule sorted_wrt_subseq)
  fix n assume "n \<in> set (list (tcache ?t))"
  then have n: "n \<in> set (list c')" by (simp add: t)
  show "stamp ?t n < clock ?t" unfolding t using lru_orderedD(3) [OF o mem [OF n]] .
  show "n < cnext (tcache ?t)" unfolding t using lru_orderedD(4) [OF o mem [OF n]] nx by simp
  from lru_orderedD(5) [OF o mem [OF n]] al [OF n]
  show "\<exists>ud a. cnodes (tcache ?t) n = Some ud \<and> pool_element_ptr ud = Some a"
    unfolding t by (cases "cnodes c' n") auto
qed

text \<open>A call that touches the node \<open>n\<close> and leaves it at the front, with the other nodes
  behind it in their order, keeps the order.\<close>
lemma lru_ordered_touch:
  assumes o: "lru_ordered t"
    and l: "list c' = n # remove1 n (list (tcache t))"
    and nx: "cnext (tcache t) \<le> cnext c'" "n < cnext c'"
    and al: "\<And>m. m \<in> set (list c') \<Longrightarrow>
              \<exists>ud a. cnodes c' m = Some ud \<and> pool_element_ptr ud = Some a"
  shows "lru_ordered (touch t (Some n) c')"
proof (rule lru_orderedI)
  let ?t = "touch t (Some n) c'"
  let ?l = "list (tcache t)"
  have t: "tcache ?t = c'" "stamp ?t = (stamp t)(n := clock t)" "clock ?t = clock t + 1"
    by (simp_all add: touch_def)
  have d: "distinct ?l" by (rule lru_orderedD(2) [OF o])
  have rest: "m \<in> set ?l \<and> m \<noteq> n" if "m \<in> set (remove1 n ?l)" for m
    using that d by (simp add: set_remove1_eq)
  have old: "stamp ?t m = stamp t m" if "m \<in> set (remove1 n ?l)" for m
    using rest [OF that] by (simp add: t)
  have s1: "sorted_wrt (\<lambda>a b. stamp t b < stamp t a) (remove1 n ?l)"
    using subseq_remove1 lru_orderedD(1) [OF o] by (rule sorted_wrt_subseq)
  have s2: "sorted_wrt (\<lambda>a b. stamp ?t b < stamp ?t a) (remove1 n ?l)"
  proof (rule sorted_wrt_mono_rel [OF _ s1])
    fix a b assume "a \<in> set (remove1 n ?l)" "b \<in> set (remove1 n ?l)" "stamp t b < stamp t a"
    then show "stamp ?t b < stamp ?t a" by (simp only: old)
  qed
  have front: "stamp ?t m < stamp ?t n" if "m \<in> set (remove1 n ?l)" for m
  proof -
    have "stamp t m < clock t" using rest [OF that] lru_orderedD(3) [OF o] by blast
    moreover have "stamp ?t n = clock t" by (simp add: t)
    ultimately show ?thesis by (simp only: old [OF that])
  qed
  show "sorted_wrt (\<lambda>a b. stamp ?t b < stamp ?t a) (list (tcache ?t))"
    unfolding t(1) l using s2 front by simp
  fix m assume "m \<in> set (list (tcache ?t))"
  then have m: "m \<in> set (list c')" by (simp only: t)
  then have m': "m = n \<or> m \<in> set (remove1 n ?l)" by (simp add: l)
  show "stamp ?t m < clock ?t"
  proof (cases "m = n")
    case True
    then show ?thesis by (simp add: t)
  next
    case False
    with m' have r: "m \<in> set (remove1 n ?l)" by simp
    have "stamp t m < clock t" using rest [OF r] lru_orderedD(3) [OF o] by blast
    then show ?thesis by (simp add: old [OF r] t(3))
  qed
  show "m < cnext (tcache ?t)"
  proof (cases "m = n")
    case True
    then show ?thesis using nx(2) by (simp add: t(1))
  next
    case False
    with m' have r: "m \<in> set (remove1 n ?l)" by simp
    have "m < cnext (tcache t)" using rest [OF r] lru_orderedD(4) [OF o] by blast
    then show ?thesis using nx(1) by (simp add: t(1))
  qed
  show "\<exists>ud a. cnodes (tcache ?t) m = Some ud \<and> pool_element_ptr ud = Some a"
    unfolding t(1) by (rule al [OF m])
qed

lemma touch_same: "touch t None (tcache t) = t"
  by (simp add: touch_def)

lemma lru_ordered_same:
  assumes "lru_ordered t"
  shows "lru_ordered (touch t None (tcache t))"
  using assms by (simp only: touch_same)

lemma lookup_ordered:
  assumes o: "lru_ordered t"
    and run: "libcache_lookup (Some (tcache t)) (Some k) dst = Some (r, w, Some c')"
  shows "r = None \<longrightarrow> c' = tcache t"
    and "lru_ordered (touch t (if r = None then None else lookup_node (tcache t) k) c')"
proof -
  let ?c = "tcache t"
  from lookup_effect [OF run] consider
    (same) "r = None" "c' = ?c"
  | (hit) n ud where "lookup_node ?c k = Some n" "n \<in> set (list ?c)" "cnodes ?c n = Some ud"
      "list c' = n # remove1 n (list ?c)" "cnext c' = cnext ?c"
      "cnodes c' = cnodes ?c
       \<or> cnodes c' = (cnodes ?c)(n \<mapsto> ud\<lparr>lock_counter := lock_counter ud + 1\<rparr>)"
      "r = None \<longrightarrow> pool_element_ptr ud = None"
    by blast
  then have "(r = None \<longrightarrow> c' = tcache t)
      \<and> lru_ordered (touch t (if r = None then None else lookup_node (tcache t) k) c')"
  proof cases
    case same
    then show ?thesis using o by (simp add: touch_same)
  next
    case hit
    from lru_orderedD(5) [OF o hit(2)] hit(3) obtain a where a: "pool_element_ptr ud = Some a"
      by auto
    with hit(7) have r: "r \<noteq> None" by auto
    have "lru_ordered (touch t (Some n) c')"
    proof (rule lru_ordered_touch [OF o hit(4)])
      show "cnext ?c \<le> cnext c'" by (simp add: hit(5))
      show "n < cnext c'" using lru_orderedD(4) [OF o hit(2)] by (simp add: hit(5))
      fix m assume "m \<in> set (list c')"
      then have m: "m \<in> set (list ?c)" using hit(2) by (auto simp: hit(4) dest: subseq_mem [OF subseq_remove1])
      from lru_orderedD(5) [OF o m] obtain d b where
        d: "cnodes ?c m = Some d" "pool_element_ptr d = Some b" by blast
      from hit(6) show "\<exists>ud a. cnodes c' m = Some ud \<and> pool_element_ptr ud = Some a"
      proof
        assume "cnodes c' = cnodes ?c"
        then show ?thesis using d by simp
      next
        assume e: "cnodes c' = (cnodes ?c)(n \<mapsto> ud\<lparr>lock_counter := lock_counter ud + 1\<rparr>)"
        show ?thesis
        proof (cases "m = n")
          case True
          then show ?thesis using a by (simp add: e)
        next
          case False
          then show ?thesis using d by (simp add: e)
        qed
      qed
    qed
    then show ?thesis using r hit(1) by auto
  qed
  then show "r = None \<longrightarrow> c' = tcache t"
    and "lru_ordered (touch t (if r = None then None else lookup_node (tcache t) k) c')"
    by simp_all
qed

lemma add_ordered:
  assumes o: "lru_ordered t"
    and run: "libcache_add (Some (tcache t)) (Some k) src = Some (r, Some c')"
  shows "r = None \<longrightarrow> list c' = list (tcache t)"
    and "lru_ordered (touch t (if r = None then None else add_node_chosen (tcache t)) c')"
proof -
  let ?c = "tcache t"
  from add_effect [OF run] consider
    (same) "r = None" "c' = ?c"
  | (evict) v vd ud' where "add_node_chosen ?c = Some v" "v \<in> set (list ?c)"
      "cnodes ?c v = Some vd" "list c' = v # remove1 v (list ?c)" "cnext c' = cnext ?c"
      "cnodes c' = (cnodes ?c)(v \<mapsto> ud')" "pool_element_ptr ud' = r"
      "r = pool_element_ptr vd"
  | (failed) "\<not> max_entry_number ?c \<le> length (list ?c)" "cnext c' = cnext ?c + 1"
      "r = None" "list c' = list ?c" "cnodes c' = (cnodes ?c)(cnext ?c := None)"
  | (fresh) ud' where "add_node_chosen ?c = Some (cnext ?c)" "cnext c' = cnext ?c + 1"
      "r \<noteq> None" "list c' = cnext ?c # list ?c"
      "cnodes c' = (cnodes ?c)(cnext ?c \<mapsto> ud')" "pool_element_ptr ud' = r"
    by blast
  then have "(r = None \<longrightarrow> list c' = list (tcache t))
      \<and> lru_ordered (touch t (if r = None then None else add_node_chosen (tcache t)) c')"
  proof cases
    case same
    then show ?thesis using o by (simp add: touch_same)
  next
    case evict
    from lru_orderedD(5) [OF o evict(2)] evict(3) obtain a where
      a: "pool_element_ptr vd = Some a" by auto
    then have r: "r = Some a" by (simp add: evict(8))
    have "lru_ordered (touch t (Some v) c')"
    proof (rule lru_ordered_touch [OF o evict(4)])
      show "cnext ?c \<le> cnext c'" by (simp add: evict(5))
      show "v < cnext c'" using lru_orderedD(4) [OF o evict(2)] by (simp add: evict(5))
      fix m assume "m \<in> set (list c')"
      then have m: "m \<in> set (list ?c)"
        using evict(2) by (auto simp: evict(4) dest: subseq_mem [OF subseq_remove1])
      from lru_orderedD(5) [OF o m] obtain d b where
        d: "cnodes ?c m = Some d" "pool_element_ptr d = Some b" by blast
      show "\<exists>ud a. cnodes c' m = Some ud \<and> pool_element_ptr ud = Some a"
      proof (cases "m = v")
        case True
        then show ?thesis using r evict(7) by (simp add: evict(6))
      next
        case False
        then show ?thesis using d by (simp add: evict(6))
      qed
    qed
    then show ?thesis using r evict(1) by simp
  next
    case failed
    have fresh: "cnext ?c \<notin> set (list ?c)"
      using lru_orderedD(4) [OF o, of "cnext ?c"] by auto
    have "lru_ordered (touch t None c')"
    proof (rule lru_ordered_keep [OF o])
      show "subseq (list c') (list ?c)" by (simp add: failed(4))
      show "cnext ?c \<le> cnext c'" by (simp add: failed(2))
      fix m assume "m \<in> set (list c')"
      then have "m \<noteq> cnext ?c" using fresh by (auto simp: failed(4))
      then show "map_option pool_element_ptr (cnodes c' m)
                 = map_option pool_element_ptr (cnodes ?c m)"
        by (simp add: failed(5))
    qed
    then show ?thesis using failed(3, 4) by simp
  next
    case fresh
    have nl: "cnext ?c \<notin> set (list ?c)"
      using lru_orderedD(4) [OF o, of "cnext ?c"] by auto
    then have rm: "remove1 (cnext ?c) (list ?c) = list ?c"
      by (rule remove1_idem)
    from fresh(3) obtain a where r: "r = Some a" by auto
    have "lru_ordered (touch t (Some (cnext ?c)) c')"
    proof (rule lru_ordered_touch [OF o])
      show "list c' = cnext ?c # remove1 (cnext ?c) (list ?c)"
        by (simp only: rm fresh(4))
      show "cnext ?c \<le> cnext c'" "cnext ?c < cnext c'" by (simp_all add: fresh(2))
      fix m assume "m \<in> set (list c')"
      then have m: "m = cnext ?c \<or> m \<in> set (list ?c)" by (simp add: fresh(4))
      show "\<exists>ud a. cnodes c' m = Some ud \<and> pool_element_ptr ud = Some a"
      proof (cases "m = cnext ?c")
        case True
        then show ?thesis using r fresh(6) by (simp add: fresh(5))
      next
        case False
        with m have "m \<in> set (list ?c)" by simp
        from lru_orderedD(5) [OF o this] False show ?thesis by (simp add: fresh(5))
      qed
    qed
    then show ?thesis using fresh(1) r by simp
  qed
  then show "r = None \<longrightarrow> list c' = list (tcache t)"
    and "lru_ordered (touch t (if r = None then None else add_node_chosen (tcache t)) c')"
    by simp_all
qed

lemma remove_ordered:
  assumes o: "lru_ordered t"
    and n: "n \<in> set (list (tcache t))"
    and c': "list c' = remove1 n (list (tcache t))" "cnodes c' = (cnodes (tcache t))(n := None)"
      "cnext c' = cnext (tcache t)"
  shows "lru_ordered (touch t None c')"
proof (rule lru_ordered_keep [OF o])
  show "subseq (list c') (list (tcache t))" by (simp add: c'(1) subseq_remove1)
  show "cnext (tcache t) \<le> cnext c'" by (simp add: c'(3))
  fix m assume "m \<in> set (list c')"
  then have "m \<noteq> n" using lru_orderedD(2) [OF o] by (auto simp: c'(1))
  then show "map_option pool_element_ptr (cnodes c' m)
             = map_option pool_element_ptr (cnodes (tcache t) m)"
    by (simp add: c'(2))
qed

lemma delete_by_key_ordered:
  assumes o: "lru_ordered t"
    and run: "libcache_delete_by_key (Some (tcache t)) (Some k) = Some (r, Some c')"
  shows "lru_ordered (touch t None c')"
proof (cases "r = LIBCACHE_SUCCESS")
  case True
  with delete_by_key_effect [OF run] obtain n where
    "n \<in> set (list (tcache t))" "list c' = remove1 n (list (tcache t))"
    "cnodes c' = (cnodes (tcache t))(n := None)" "cnext c' = cnext (tcache t)"
    by auto
  with o show ?thesis by (rule remove_ordered)
next
  case False
  with delete_by_key_effect [OF run] have "c' = tcache t" by simp
  then show ?thesis using o by (simp add: touch_same)
qed

lemma delete_entry_ordered:
  assumes o: "lru_ordered t"
    and run: "libcache_delete_entry (Some (tcache t)) e = Some (r, Some c')"
  shows "lru_ordered (touch t None c')"
proof (cases "r = LIBCACHE_SUCCESS")
  case True
  with delete_entry_effect [OF run] obtain n where
    "n \<in> set (list (tcache t))" "list c' = remove1 n (list (tcache t))"
    "cnodes c' = (cnodes (tcache t))(n := None)" "cnext c' = cnext (tcache t)"
    by auto
  with o show ?thesis by (rule remove_ordered)
next
  case False
  with delete_entry_effect [OF run] have "c' = tcache t" by simp
  then show ?thesis using o by (simp add: touch_same)
qed

lemma unlock_ordered:
  assumes o: "lru_ordered t"
    and run: "libcache_unlock_entry (Some (tcache t)) e = Some (r, Some c')"
  shows "lru_ordered (touch t None c')"
proof (rule lru_ordered_keep [OF o])
  note u = unlock_effect [OF run]
  show "subseq (list c') (list (tcache t))" using u by simp
  show "cnext (tcache t) \<le> cnext c'" using u by simp
  fix m
  show "map_option pool_element_ptr (cnodes c' m)
        = map_option pool_element_ptr (cnodes (tcache t) m)"
    using u by blast
qed

lemma clean_ordered:
  assumes o: "lru_ordered t"
    and run: "libcache_clean (Some (tcache t)) = Some (r, Some c')"
  shows "lru_ordered (touch t None c')"
proof -
  from clean_effect [OF run] obtain popped where
    p: "list (tcache t) = popped @ list c'" "cnext c' = cnext (tcache t)"
       "\<forall>m. m \<notin> set popped \<longrightarrow> cnodes c' m = cnodes (tcache t) m"
    by blast
  have d: "distinct (popped @ list c')"
    using lru_orderedD(2) [OF o] by (simp only: p(1))
  show ?thesis
  proof (rule lru_ordered_keep [OF o])
    show "subseq (list c') (list (tcache t))" by (simp only: p(1) subseq_suffix)
    show "cnext (tcache t) \<le> cnext c'" by (simp add: p(2))
    fix m assume "m \<in> set (list c')"
    then have "m \<notin> set popped" using d by auto
    then show "map_option pool_element_ptr (cnodes c' m)
               = map_option pool_element_ptr (cnodes (tcache t) m)"
      using p(3) by simp
  qed
qed

lemma trace_step_ordered:
  assumes o: "lru_ordered t" and s: "trace_step t op = Some t'"
  shows "lru_ordered t'"
proof (cases op)
  case (Lookup k dst)
  with s obtain r w c' where
    run: "libcache_lookup (Some (tcache t)) (Some k) dst = Some (r, w, Some c')"
    and t': "t' = touch t (if r = None then None else lookup_node (tcache t) k) c'"
    by (auto split: option.splits)
  show ?thesis unfolding t' using o run by (rule lookup_ordered(2))
next
  case (Add k src)
  with s obtain r c' where
    run: "libcache_add (Some (tcache t)) (Some k) src = Some (r, Some c')"
    and t': "t' = touch t (if r = None then None else add_node_chosen (tcache t)) c'"
    by (auto split: option.splits)
  show ?thesis unfolding t' using o run by (rule add_ordered(2))
next
  case (Delete_by_key k)
  with s obtain r c' where
    run: "libcache_delete_by_key (Some (tcache t)) (Some k) = Some (r, Some c')"
    and t': "t' = touch t None c'"
    by (auto split: option.splits)
  show ?thesis unfolding t' using o run by (rule delete_by_key_ordered)
next
  case (Delete_entry e)
  with s obtain r c' where
    run: "libcache_delete_entry (Some (tcache t)) e = Some (r, Some c')"
    and t': "t' = touch t None c'"
    by (auto split: option.splits)
  show ?thesis unfolding t' using o run by (rule delete_entry_ordered)
next
  case (Unlock_entry e)
  with s obtain r c' where
    run: "libcache_unlock_entry (Some (tcache t)) e = Some (r, Some c')"
    and t': "t' = touch t None c'"
    by (auto split: option.splits)
  show ?thesis unfolding t' using o run by (rule unlock_ordered)
next
  case Clean
  with s obtain r c' where
    run: "libcache_clean (Some (tcache t)) = Some (r, Some c')"
    and t': "t' = touch t None c'"
    by (auto split: option.splits)
  show ?thesis unfolding t' using o run by (rule clean_ordered)
qed

lemma trace_run_ordered:
  "lru_ordered t \<Longrightarrow> trace_run t ops = Some t' \<Longrightarrow> lru_ordered t'"
proof (induction ops arbitrary: t)
  case Nil
  then show ?case by simp
next
  case (Cons op ops)
  from Cons.prems(2) obtain t1 where
    s: "trace_step t op = Some t1" and r: "trace_run t1 ops = Some t'"
    by (auto split: option.splits)
  from Cons.prems(1) s have "lru_ordered t1" by (rule trace_step_ordered)
  then show ?case using r by (rule Cons.IH)
qed

lemma lru_front:
  assumes "lru_ordered t" and "n \<in> set (list (tcache t))"
  shows "stamp t n \<le> stamp t (hd (list (tcache t)))"
proof (cases "list (tcache t)")
  case Nil
  with assms(2) show ?thesis by simp
next
  case (Cons x xs)
  from lru_orderedD(1) [OF assms(1)] have "\<forall>y\<in>set xs. stamp t y < stamp t x"
    by (simp add: Cons)
  with assms(2) show ?thesis by (auto simp: Cons intro: less_imp_le)
qed

text \<open>
  Claim C6.  A \<^verbatim>\<open>libcache_lookup\<close> that returns an entry leaves the list with the node the key
  resolves to at the front and the other nodes behind it in their old order.  A
  \<^verbatim>\<open>libcache_add\<close> that returns an entry leaves the list with the node it has filled at the
  front (the evicted node moved to the front of a full cache, a new node put before the
  old list otherwise), and that node holds the returned payload address and the key.
  No other call reorders the list: a delete that returns \<^verbatim>\<open>LIBCACHE_SUCCESS\<close> takes exactly
  the node it has resolved out of the list and frees it, any other delete leaves the
  cache as it is, \<^verbatim>\<open>libcache_unlock_entry\<close> leaves the list as it is and \<^verbatim>\<open>libcache_clean\<close>
  leaves a tail of the list, the empty one when it returns \<^verbatim>\<open>LIBCACHE_SUCCESS\<close>.  In a list
  that is in the order of the last touch, a \<^verbatim>\<open>libcache_lookup\<close> that returns \<^verbatim>\<open>NULL\<close> leaves
  the cache as it is and a \<^verbatim>\<open>libcache_add\<close> that returns \<^verbatim>\<open>NULL\<close> leaves the list as it is.
  So the list of a new cache is in the order of the last touch and stays in it under
  every sequence of calls: the stamps decrease along the list, and the front of the list
  is the resident node with the latest touch.
\<close>
theorem touched_entry_at_front:
  "(libcache_lookup (Some c) (Some k) dst = Some (Some p, w, Some c1) \<longrightarrow>
      (\<exists>n. lookup_node c k = Some n \<and> n \<in> set (list c)
           \<and> list c1 = n # remove1 n (list c)))
   \<and> (libcache_add (Some c) (Some k) src = Some (Some p, Some c2) \<longrightarrow>
      (\<exists>n ud. add_node_chosen c = Some n
         \<and> (if max_entry_number c \<le> length (list c)
            then n \<in> set (list c) \<and> list c2 = n # remove1 n (list c)
            else n = cnext c \<and> list c2 = n # list c)
         \<and> cnodes c2 n = Some ud \<and> pool_element_ptr ud = Some p
         \<and> take (key_size c) (ud_key ud) = take (key_size c) k))
   \<and> (libcache_delete_by_key (Some c) (Some k) = Some (r, Some c3) \<longrightarrow>
      (if r = LIBCACHE_SUCCESS
       then (\<exists>n. lookup_node c k = Some n \<and> n \<in> set (list c)
               \<and> list c3 = remove1 n (list c) \<and> cnodes c3 = (cnodes c)(n := None))
       else c3 = c))
   \<and> (libcache_delete_entry (Some c) e = Some (r, Some c4) \<longrightarrow>
      (if r = LIBCACHE_SUCCESS
       then (\<exists>m ud hn hdata n.
               pool_get_reserved_pointer (pool c) e = Some m \<and> cnodes c m = Some ud
               \<and> hash_node_ptr ud = Some hn \<and> hnodes (hash_table c) hn = Some hdata
               \<and> lookup_node c (hd_key hdata) = Some n \<and> n \<in> set (list c)
               \<and> list c4 = remove1 n (list c) \<and> cnodes c4 = (cnodes c)(n := None))
       else c4 = c))
   \<and> (libcache_unlock_entry (Some c) e = Some (r, Some c5) \<longrightarrow> list c5 = list c)
   \<and> (libcache_clean (Some c) = Some (r, Some c6) \<longrightarrow>
        (\<exists>popped. list c = popped @ list c6) \<and> (r = LIBCACHE_SUCCESS \<longrightarrow> list c6 = []))
   \<and> (lru_ordered t \<longrightarrow>
        (libcache_lookup (Some (tcache t)) (Some k) dst = Some (None, w, Some c1) \<longrightarrow>
           c1 = tcache t)
        \<and> (libcache_add (Some (tcache t)) (Some k) src = Some (None, Some c2) \<longrightarrow>
             list c2 = list (tcache t))
        \<and> (trace_run t ops = Some t' \<longrightarrow>
             lru_ordered t'
             \<and> sorted_wrt (\<lambda>a b. stamp t' b < stamp t' a) (list (tcache t'))
             \<and> (\<forall>n\<in>set (list (tcache t')). stamp t' n \<le> stamp t' (hd (list (tcache t'))))))
   \<and> (libcache_create max_entry_num entry_sz key_sz allocate_memory free_memory free_entry
          cmp_key key_to_number = Some (Some c0) \<longrightarrow>
        list c0 = [] \<and> lru_ordered \<lparr>tcache = c0, stamp = s, clock = now\<rparr>)"
proof (intro conjI impI)
  assume "libcache_lookup (Some c) (Some k) dst = Some (Some p, w, Some c1)"
  from lookup_effect [OF this]
  show "\<exists>n. lookup_node c k = Some n \<and> n \<in> set (list c) \<and> list c1 = n # remove1 n (list c)"
    by auto
next
  assume "libcache_add (Some c) (Some k) src = Some (Some p, Some c2)"
  from add_effect [OF this]
  show "\<exists>n ud. add_node_chosen c = Some n
         \<and> (if max_entry_number c \<le> length (list c)
            then n \<in> set (list c) \<and> list c2 = n # remove1 n (list c)
            else n = cnext c \<and> list c2 = n # list c)
         \<and> cnodes c2 n = Some ud \<and> pool_element_ptr ud = Some p
         \<and> take (key_size c) (ud_key ud) = take (key_size c) k"
    by (cases "max_entry_number c \<le> length (list c)") auto
next
  assume "libcache_delete_by_key (Some c) (Some k) = Some (r, Some c3)"
  from delete_by_key_effect [OF this]
  show "if r = LIBCACHE_SUCCESS
       then (\<exists>n. lookup_node c k = Some n \<and> n \<in> set (list c)
               \<and> list c3 = remove1 n (list c) \<and> cnodes c3 = (cnodes c)(n := None))
       else c3 = c"
    by (auto split: if_splits)
next
  assume "libcache_delete_entry (Some c) e = Some (r, Some c4)"
  from delete_entry_effect [OF this]
  show "if r = LIBCACHE_SUCCESS
       then (\<exists>m ud hn hdata n.
               pool_get_reserved_pointer (pool c) e = Some m \<and> cnodes c m = Some ud
               \<and> hash_node_ptr ud = Some hn \<and> hnodes (hash_table c) hn = Some hdata
               \<and> lookup_node c (hd_key hdata) = Some n \<and> n \<in> set (list c)
               \<and> list c4 = remove1 n (list c) \<and> cnodes c4 = (cnodes c)(n := None))
       else c4 = c"
    by (cases "r = LIBCACHE_SUCCESS") (simp_all, blast)
next
  assume "libcache_unlock_entry (Some c) e = Some (r, Some c5)"
  from unlock_effect [OF this] show "list c5 = list c" by simp
next
  assume cl: "libcache_clean (Some c) = Some (r, Some c6)"
  from clean_effect [OF cl] show "\<exists>popped. list c = popped @ list c6" by blast
  assume "r = LIBCACHE_SUCCESS"
  with clean_effect [OF cl] show "list c6 = []" by blast
next
  assume "lru_ordered t" and "libcache_lookup (Some (tcache t)) (Some k) dst = Some (None, w, Some c1)"
  from lookup_ordered(1) [OF this] show "c1 = tcache t" by simp
next
  assume "lru_ordered t" and "libcache_add (Some (tcache t)) (Some k) src = Some (None, Some c2)"
  from add_ordered(1) [OF this] show "list c2 = list (tcache t)" by simp
next
  assume "lru_ordered t" and "trace_run t ops = Some t'"
  then show o: "lru_ordered t'" by (rule trace_run_ordered)
  from lru_orderedD(1) [OF o]
  show "sorted_wrt (\<lambda>a b. stamp t' b < stamp t' a) (list (tcache t'))" .
  from lru_front [OF o]
  show "\<forall>n\<in>set (list (tcache t')). stamp t' n \<le> stamp t' (hd (list (tcache t')))" by blast
next
  assume cr: "libcache_create max_entry_num entry_sz key_sz allocate_memory free_memory free_entry
          cmp_key key_to_number = Some (Some c0)"
  then show e: "list c0 = []"
    by (auto simp: libcache_create_def Let_def split: option.splits)
  then show "lru_ordered \<lparr>tcache = c0, stamp = s, clock = now\<rparr>"
    by (simp add: lru_ordered_def)
qed

lemma lookup_C_k5:
  "libcache_lookup (Some cache_C) (Some k5) None
       = Some (Some 1000, None,
               Some (cache_C\<lparr>cnodes := (cnodes cache_C)(0 \<mapsto>
                        \<lparr>ud_key = k5, hash_node_ptr = Some 0, pool_element_ptr = Some 1000,
                         lock_counter = 2\<rparr>),
                      list := [0, 1]\<rparr>))"
  by (simp add: cache_C_def cache_defs hash_defs key_defs hash_C_def Let_def)

lemma lookup_A_k7: "libcache_lookup (Some cache_A) (Some k7) None = Some (None, None, Some cache_A)"
  by (simp add: cache_A_def cache_defs hash_defs key_defs hash_A_def Let_def)

lemma add_B_k5: "libcache_add (Some cache_B) (Some k5) None = Some (None, Some cache_B)"
  by (simp add: cache_B_def cache_defs hash_defs key_defs hash_B_def Let_def)

lemma delete_C_k5:
  "libcache_delete_by_key (Some cache_C) (Some k5) = Some (LIBCACHE_LOCKED, Some cache_C)"
  by (simp add: cache_C_def cache_defs hash_defs key_defs hash_C_def Let_def)

lemma unlock_C_1000:
  "libcache_unlock_entry (Some cache_C) (Some 1000) = Some (LIBCACHE_SUCCESS, Some cache_U)"
  by (simp add: cache_C_def cache_U_def cache_defs pool_defs)

lemma delete_U_k5:
  "\<exists>c'. libcache_delete_by_key (Some cache_U) (Some k5) = Some (LIBCACHE_SUCCESS, Some c')"
  by (simp add: cache_U_def cache_defs hash_defs pool_defs key_defs hash_C_def Let_def)

lemma delete_entry_U_1000:
  "\<exists>c'. libcache_delete_entry (Some cache_U) (Some 1000) = Some (LIBCACHE_SUCCESS, Some c')"
  by (simp add: cache_U_def cache_defs hash_defs pool_defs key_defs hash_C_def Let_def)

lemma add_U_k7:
  "\<exists>c'. libcache_add (Some cache_U) (Some k7) (Some [5, 6, 7, 8]) = Some (Some 1000, Some c')"
  by (simp add: cache_U_def cache_defs hash_defs pool_defs key_defs hash_C_def Let_def)

lemma clean_C: "libcache_clean (Some cache_C) = Some (LIBCACHE_SUCCESS, Some cache_C_cleaned)"
  by (simp add: libcache_clean_def libcache_clean_loop.simps pool_defs cache_C_def
      cache_C_cleaned_def)

lemma lookup_node_C:
  "lookup_node cache_C k5 = Some 0" "lookup_node cache_U k5 = Some 0"
  by (simp_all add: lookup_node_def cache_C_def cache_U_def hash_defs key_defs hash_C_def
      Let_def)

lemma add_node_chosen_examples:
  "add_node_chosen cache_A = Some 0" "add_node_chosen cache_B = Some 1"
  "add_node_chosen cache_U = Some 0"
  by (simp_all add: add_node_chosen_def cache_A_def cache_B_def cache_U_def
      list_reverse_foreach_def libcache_get_unlock_node_def)

text \<open>A new cache, then \<^verbatim>\<open>libcache_add\<close> of \<open>k5\<close> and of \<open>k3\<close> and a \<^verbatim>\<open>libcache_lookup\<close> of \<open>k5\<close>:
  the node 0 of \<open>k5\<close> is touched at the times 0 and 2, the node 1 of \<open>k3\<close> at the time 1,
  and the list is \<open>[0, 1]\<close>.\<close>
lemma trace_run_example:
  "trace_run \<lparr>tcache = cache_A, stamp = (\<lambda>n. 0), clock = 0\<rparr>
     [Add k5 None, Add k3 (Some [1, 2, 3, 4]), Lookup k5 None]
   = Some \<lparr>tcache = cache_C\<lparr>cnodes := (cnodes cache_C)(0 \<mapsto>
                        \<lparr>ud_key = k5, hash_node_ptr = Some 0, pool_element_ptr = Some 1000,
                         lock_counter = 2\<rparr>),
                      list := [0, 1]\<rparr>,
            stamp = (\<lambda>n. 0)(0 := 0, 1 := 1, 0 := 2), clock = 3\<rparr>"
  by (simp add: add_A add_B_k3 lookup_C_k5 touch_def add_node_chosen_examples lookup_node_C
      numeral_2_eq_2 numeral_3_eq_3)

theorem touched_entry_at_front_witness:
  "libcache_lookup (Some cache_C) (Some k5) None
       = Some (Some 1000, None,
               Some (cache_C\<lparr>cnodes := (cnodes cache_C)(0 \<mapsto>
                        \<lparr>ud_key = k5, hash_node_ptr = Some 0, pool_element_ptr = Some 1000,
                         lock_counter = 2\<rparr>),
                      list := [0, 1]\<rparr>))
   \<and> lookup_node cache_C k5 = Some 0 \<and> list cache_C = [1, 0]
   \<and> libcache_add (Some cache_B) (Some k3) (Some [1, 2, 3, 4]) = Some (Some 1004, Some cache_C)
   \<and> add_node_chosen cache_B = Some 1 \<and> list cache_B = [0]
   \<and> (\<exists>ud. cnodes cache_C 1 = Some ud \<and> pool_element_ptr ud = Some 1004
          \<and> take (key_size cache_B) (ud_key ud) = take (key_size cache_B) k3)
   \<and> list cache_U = [1, 0] \<and> add_node_chosen cache_U = Some 0
   \<and> (\<exists>c2. libcache_add (Some cache_U) (Some k7) (Some [5, 6, 7, 8]) = Some (Some 1000, Some c2)
          \<and> list c2 = [0, 1])
   \<and> (\<exists>c3. libcache_delete_by_key (Some cache_U) (Some k5) = Some (LIBCACHE_SUCCESS, Some c3)
          \<and> list c3 = [1] \<and> cnodes c3 0 = None)
   \<and> libcache_delete_by_key (Some cache_C) (Some k5) = Some (LIBCACHE_LOCKED, Some cache_C)
   \<and> (\<exists>c4. libcache_delete_entry (Some cache_U) (Some 1000) = Some (LIBCACHE_SUCCESS, Some c4)
          \<and> list c4 = [1] \<and> cnodes c4 0 = None)
   \<and> libcache_unlock_entry (Some cache_C) (Some 1000) = Some (LIBCACHE_SUCCESS, Some cache_U)
   \<and> libcache_clean (Some cache_C) = Some (LIBCACHE_SUCCESS, Some cache_C_cleaned)
   \<and> list cache_C_cleaned = []
   \<and> libcache_create 2 4 4 (Some ut_alloc) (Some ()) None test_key_com test_key_to_int
       = Some (Some cache_A)
   \<and> lru_ordered \<lparr>tcache = cache_A, stamp = (\<lambda>n. 0), clock = 0\<rparr>
   \<and> libcache_lookup (Some cache_A) (Some k7) None = Some (None, None, Some cache_A)
   \<and> (\<exists>t'. trace_run \<lparr>tcache = cache_A, stamp = (\<lambda>n. 0), clock = 0\<rparr> [Add k5 None] = Some t'
          \<and> tcache t' = cache_B \<and> lru_ordered t'
          \<and> libcache_add (Some (tcache t')) (Some k5) None = Some (None, Some cache_B))
   \<and> (\<exists>t'. trace_run \<lparr>tcache = cache_A, stamp = (\<lambda>n. 0), clock = 0\<rparr>
              [Add k5 None, Add k3 (Some [1, 2, 3, 4]), Lookup k5 None] = Some t'
          \<and> list (tcache t') = [0, 1] \<and> stamp t' 0 = 2 \<and> stamp t' 1 = 1 \<and> clock t' = 3
          \<and> lru_ordered t'
          \<and> (\<forall>n\<in>set (list (tcache t')). stamp t' n \<le> stamp t' (hd (list (tcache t')))))"
proof -
  let ?c1 = "cache_C\<lparr>cnodes := (cnodes cache_C)(0 \<mapsto>
                        \<lparr>ud_key = k5, hash_node_ptr = Some 0, pool_element_ptr = Some 1000,
                         lock_counter = 2\<rparr>), list := [0, 1]\<rparr>"
  let ?t0 = "\<lparr>tcache = cache_A, stamp = (\<lambda>n. 0), clock = 0\<rparr>"
  let ?t1 = "\<lparr>tcache = cache_B, stamp = (\<lambda>n. 0 :: nat)(0 := 0), clock = 1\<rparr>"
  let ?t3 = "\<lparr>tcache = ?c1, stamp = (\<lambda>n. 0 :: nat)(0 := 0, 1 := 1, 0 := 2), clock = 3\<rparr>"
  note T = touched_entry_at_front
  note on_lookup = mp [OF conjunct1 [OF T]]
  note on_add = mp [OF conjunct1 [OF conjunct2 [OF T]]]
  note on_delete = mp [OF conjunct1 [OF conjunct2 [OF conjunct2 [OF T]]]]
  note on_delete_entry = mp [OF conjunct1 [OF conjunct2 [OF conjunct2 [OF conjunct2 [OF T]]]]]
  note on_unlock =
    mp [OF conjunct1 [OF conjunct2 [OF conjunct2 [OF conjunct2 [OF conjunct2 [OF T]]]]]]
  note on_clean =
    mp [OF conjunct1 [OF conjunct2 [OF conjunct2 [OF conjunct2 [OF conjunct2
      [OF conjunct2 [OF T]]]]]]]
  note in_order =
    mp [OF conjunct1 [OF conjunct2 [OF conjunct2 [OF conjunct2 [OF conjunct2
      [OF conjunct2 [OF conjunct2 [OF T]]]]]]]]
  note on_create =
    mp [OF conjunct2 [OF conjunct2 [OF conjunct2 [OF conjunct2 [OF conjunct2
      [OF conjunct2 [OF conjunct2 [OF T]]]]]]]]
  have LC: "list cache_C = [1, 0]" and LB: "list cache_B = [0]"
    and LU: "list cache_U = [1, 0]" and LX: "list cache_C_cleaned = []"
    by (simp_all add: cache_C_def cache_B_def cache_U_def cache_C_cleaned_def)
  have fullU: "max_entry_number cache_U \<le> length (list cache_U)"
    by (simp add: cache_U_def)
  from on_lookup [OF lookup_C_k5] have W1: "lookup_node cache_C k5 = Some 0"
    by (auto simp: lookup_node_C)
  from on_add [OF add_B_k3] have W2: "add_node_chosen cache_B = Some 1
      \<and> (\<exists>ud. cnodes cache_C 1 = Some ud \<and> pool_element_ptr ud = Some 1004
          \<and> take (key_size cache_B) (ud_key ud) = take (key_size cache_B) k3)"
    by (auto simp: add_node_chosen_examples)
  from add_U_k7 obtain c2 where
    a2: "libcache_add (Some cache_U) (Some k7) (Some [5, 6, 7, 8]) = Some (Some 1000, Some c2)"
    by blast
  from on_add [OF a2] fullU have "list c2 = [0, 1]"
    by (auto simp: add_node_chosen_examples LU)
  with a2 have W3: "\<exists>c2. libcache_add (Some cache_U) (Some k7) (Some [5, 6, 7, 8])
                           = Some (Some 1000, Some c2) \<and> list c2 = [0, 1]"
    by blast
  from delete_U_k5 obtain c3 where
    d3: "libcache_delete_by_key (Some cache_U) (Some k5) = Some (LIBCACHE_SUCCESS, Some c3)"
    by blast
  from on_delete [OF d3] have "list c3 = [1] \<and> cnodes c3 0 = None"
    by (auto simp: lookup_node_C LU)
  with d3 have W4: "\<exists>c3. libcache_delete_by_key (Some cache_U) (Some k5)
                           = Some (LIBCACHE_SUCCESS, Some c3)
                         \<and> list c3 = [1] \<and> cnodes c3 0 = None"
    by blast
  from on_delete [OF delete_C_k5] have "cache_C = cache_C" by simp
  from delete_entry_U_1000 obtain c4 where
    d4: "libcache_delete_entry (Some cache_U) (Some 1000) = Some (LIBCACHE_SUCCESS, Some c4)"
    by blast
  from on_delete_entry [OF d4] obtain m ud hn hdata n where
    ch: "pool_get_reserved_pointer (pool cache_U) (Some 1000) = Some m"
      "cnodes cache_U m = Some ud" "hash_node_ptr ud = Some hn"
      "hnodes (hash_table cache_U) hn = Some hdata"
      "lookup_node cache_U (hd_key hdata) = Some n"
      "list c4 = remove1 n (list cache_U)" "cnodes c4 = (cnodes cache_U)(n := None)"
    by auto
  from ch(1) have "m = 0" by (simp add: cache_U_def pool_defs)
  with ch(2) have "ud = \<lparr>ud_key = k5, hash_node_ptr = Some 0, pool_element_ptr = Some 1000,
                         lock_counter = 0\<rparr>"
    by (simp add: cache_U_def)
  with ch(3) have "hn = 0" by simp
  with ch(4) have "hdata = \<lparr>hd_key = k5, cache_node_ptr = Some 0\<rparr>"
    by (simp add: cache_U_def hash_C_def)
  with ch(5) have "n = 0" by (simp add: lookup_node_C)
  with ch(6, 7) have "list c4 = [1] \<and> cnodes c4 0 = None" by (simp add: LU)
  with d4 have W5: "\<exists>c4. libcache_delete_entry (Some cache_U) (Some 1000)
                           = Some (LIBCACHE_SUCCESS, Some c4)
                         \<and> list c4 = [1] \<and> cnodes c4 0 = None"
    by blast
  from on_unlock [OF unlock_C_1000] have "list cache_U = list cache_C" .
  from on_clean [OF clean_C] have W7: "list cache_C_cleaned = []" by simp
  from on_create [OF create_A] have o0: "lru_ordered ?t0" by simp
  have r1: "trace_run ?t0 [Add k5 None] = Some ?t1"
    by (simp add: add_A touch_def add_node_chosen_examples)
  note ord0 = in_order [OF o0]
  note runs0 = mp [OF conjunct2 [OF conjunct2 [OF ord0]]]
  from runs0 [OF r1] have o1: "lru_ordered ?t1" by simp
  have "libcache_lookup (Some (tcache ?t0)) (Some k7) None = Some (None, None, Some cache_A)"
    using lookup_A_k7 by simp
  from mp [OF conjunct1 [OF ord0] this] have "cache_A = tcache ?t0" .
  note ord1 = in_order [OF o1]
  have "libcache_add (Some (tcache ?t1)) (Some k5) None = Some (None, Some cache_B)"
    using add_B_k5 by simp
  from mp [OF conjunct1 [OF conjunct2 [OF ord1]] this]
  have "list cache_B = list (tcache ?t1)" .
  have W8: "\<exists>t'. trace_run ?t0 [Add k5 None] = Some t'
          \<and> tcache t' = cache_B \<and> lru_ordered t'
          \<and> libcache_add (Some (tcache t')) (Some k5) None = Some (None, Some cache_B)"
    using r1 o1 add_B_k5 by (intro exI [of _ ?t1]) simp
  from runs0 [OF trace_run_example] have
    o3: "lru_ordered ?t3
         \<and> (\<forall>n\<in>set (list (tcache ?t3)). stamp ?t3 n \<le> stamp ?t3 (hd (list (tcache ?t3))))"
    by blast
  have W9: "\<exists>t'. trace_run ?t0 [Add k5 None, Add k3 (Some [1, 2, 3, 4]), Lookup k5 None] = Some t'
          \<and> list (tcache t') = [0, 1] \<and> stamp t' 0 = 2 \<and> stamp t' 1 = 1 \<and> clock t' = 3
          \<and> lru_ordered t'
          \<and> (\<forall>n\<in>set (list (tcache t')). stamp t' n \<le> stamp t' (hd (list (tcache t'))))"
    using trace_run_example o3 by (intro exI [of _ ?t3]) simp
  show ?thesis
    by (intro conjI lookup_C_k5 W1 LC add_B_k3 conjunct1 [OF W2] LB conjunct2 [OF W2]
        LU add_node_chosen_examples(3) W3 W4 delete_C_k5 W5 unlock_C_1000 clean_C W7
        create_A o0 lookup_A_k7 W8 W9)
qed


section \<open>Pinned entries\<close>

lemma hash_del_hnodes:
  "hash_del ht key hn = Some (r, ht') \<Longrightarrow> hn \<noteq> Some h \<Longrightarrow> hnodes ht' h = hnodes ht h"
  by (auto simp: hash_del_def Let_def free_node_def split: option.splits if_splits)

lemma hash_del_hnext:
  "hash_del ht key hn = Some (r, ht') \<Longrightarrow> hnext ht' = hnext ht"
  by (auto simp: hash_del_def Let_def split: option.splits if_splits)

lemma hash_add_hnodes:
  "hash_add ht key cn = Some (r, ht') \<Longrightarrow> h \<noteq> hnext ht \<Longrightarrow> hnodes ht' h = hnodes ht h"
  by (auto simp: hash_add_def Let_def split: option.splits if_splits)

lemma free_element_payload: "payload (snd (libpool_free_element p e)) = payload p"
  by (simp add: libpool_free_element_def split: option.splits)

lemma set_reserved_payload: "payload (snd (pool_set_reserved_pointer p e n)) = payload p"
  by (simp add: pool_set_reserved_pointer_def split: option.splits)

lemma get_element_payload: "payload (snd (libpool_get_element p)) = payload p"
  by (simp add: libpool_get_element_def list_pop_front_def split: list.splits)

lemma get_element_free: "fst (libpool_get_element p) = Some a \<Longrightarrow> a \<in> set (free_slots p)"
  by (auto simp: libpool_get_element_def list_pop_front_def split: list.splits)

lemma set_reserved_payload_eq:
  "pool_set_reserved_pointer p e n = (r, p') \<Longrightarrow> payload p' = payload p"
  using set_reserved_payload [of p e n] by simp

lemma get_element_payload_eq:
  "libpool_get_element p = (x, p') \<Longrightarrow> payload p' = payload p"
  using get_element_payload [of p] by simp

lemma get_element_free_eq:
  "libpool_get_element p = (Some a, p') \<Longrightarrow> a \<in> set (free_slots p)"
  using get_element_free [of p a] by simp

lemma add_node_keeps:
  assumes run: "libcache_add_node c1 node new k src = Some (r, c')"
    and ne: "node \<noteq> E"
    and E: "E \<in> set (list c1)" "cnodes c1 E = Some ud"
    and pe: "\<And>a. pool_element_ptr ud = Some a \<Longrightarrow>
              (if new then a \<notin> set (free_slots (pool c1))
               else \<forall>d. cnodes c1 node = Some d \<longrightarrow> pool_element_ptr d \<noteq> Some a)"
    and hn: "\<And>h. hash_node_ptr ud = Some h \<Longrightarrow> h \<noteq> hnext (hash_table c1)"
  shows "E \<in> set (list c') \<and> cnodes c' E = Some ud
         \<and> (\<forall>a. pool_element_ptr ud = Some a \<longrightarrow> payload (pool c') a = payload (pool c1) a)
         \<and> (\<forall>h. hash_node_ptr ud = Some h \<longrightarrow> hnodes (hash_table c') h = hnodes (hash_table c1) h)"
proof -
  obtain nd where nd: "cnodes c1 node = Some nd"
    using run by (auto simp: libcache_add_node_def split: option.splits)
  obtain pe1 pool1 where g: "(if new then libpool_get_element (pool c1)
                             else (pool_element_ptr nd, pool c1)) = (pe1, pool1)"
    by (cases "if new then libpool_get_element (pool c1) else (pool_element_ptr nd, pool c1)")
  have p1: "payload pool1 = payload (pool c1)"
    using g by (auto split: if_splits dest: get_element_payload_eq)
  have pe1_ne: "pe1 \<noteq> Some a" if "pool_element_ptr ud = Some a" for a
    using pe [OF that] nd g by (auto split: if_splits dest: get_element_free_eq)
  obtain pool2 where m: "(case src of
                   None \<Rightarrow> Some pool1
                 | Some s \<Rightarrow>
                    (case pe1 of
                       None \<Rightarrow> None
                     | Some a \<Rightarrow>
                        (case memcpy (payload pool1 a) s (entry_size c1) of
                           None \<Rightarrow> None
                         | Some new \<Rightarrow>
                             Some (pool1\<lparr>payload := (payload pool1)(a := new)\<rparr>)))) = Some pool2"
    using run nd g by (auto simp: libcache_add_node_def split: option.splits)
  have p2: "payload pool2 a = payload (pool c1) a" if "pool_element_ptr ud = Some a" for a
    using m p1 pe1_ne [OF that] by (auto split: option.splits)
  obtain key_copy where kc: "memcpy (ud_key nd) k (key_size c1) = Some key_copy"
    using run nd g m by (auto simp: libcache_add_node_def split: option.splits)
  obtain rr pool3 where sr: "(if new then pool_set_reserved_pointer pool2 pe1 (Some node)
                              else (OK, pool2)) = (rr, pool3)"
    by (cases "if new then pool_set_reserved_pointer pool2 pe1 (Some node) else (OK, pool2)")
  have p3: "payload pool3 = payload pool2"
    using sr by (auto split: if_splits dest: set_reserved_payload_eq)
  show ?thesis
  proof (cases rr)
    case ERR
    then have "c' = c1\<lparr>pool := snd (libpool_free_element pool3 pe1),
                        list := snd (list_pop_front (list_push_front (list c1) node)),
                        cnodes := (cnodes c1)(node := None)\<rparr>"
      using run nd g m kc sr by (simp add: libcache_add_node_def)
    then show ?thesis
      using ne E p2 p3
      by (simp add: list_pop_front_def list_push_front_def free_element_payload)
  next
    case OK
    then obtain hnew ht where
      ha: "hash_add (hash_table c1) (Some k) (Some node) = Some (hnew, ht)" and
      c': "list c' = node # list c1" "pool c' = pool3" "hash_table c' = ht"
          "cnodes c' E = cnodes c1 E"
      using run nd g m kc sr ne
      by (auto simp: libcache_add_node_def Let_def list_push_front_def split: option.splits)
    show ?thesis
      using c' E p2 p3 hn hash_add_hnodes [OF ha] by simp
  qed
qed


lemma keeps_entry_same: "E \<in> set (list c) \<Longrightarrow> keeps_entry c c E"
  by (simp add: keeps_entry_def split: option.splits)

lemma entry_separateD:
  assumes "entry_separate c E" "cnodes c E = Some ud"
  shows "E \<noteq> cnext c"
    and "pool_element_ptr ud = Some a \<Longrightarrow> a \<notin> set (free_slots (pool c))"
    and "hash_node_ptr ud = Some h \<Longrightarrow> h \<noteq> hnext (hash_table c)"
    and "n \<in> set (list c) \<Longrightarrow> n \<noteq> E \<Longrightarrow> cnodes c n = Some d \<Longrightarrow>
         pool_element_ptr ud = Some a \<Longrightarrow> pool_element_ptr d \<noteq> Some a"
    and "n \<in> set (list c) \<Longrightarrow> n \<noteq> E \<Longrightarrow> cnodes c n = Some d \<Longrightarrow>
         hash_node_ptr ud = Some h \<Longrightarrow> hash_node_ptr d \<noteq> Some h"
  using assms by (auto simp: entry_separate_def list_all_iff split: option.splits)

lemma eviction_skips_pinned:
  assumes "cnodes c E = Some ud" "lock_counter ud \<noteq> 0"
  shows "list_reverse_foreach (list c) (libcache_get_unlock_node c) \<noteq> Some (Some E)"
proof
  assume "list_reverse_foreach (list c) (libcache_get_unlock_node c) = Some (Some E)"
  then have "libcache_get_unlock_node c E = Some 0"
    unfolding list_reverse_foreach_def by (auto dest: foreach_stopD)
  then show False using assms by (simp add: libcache_get_unlock_node_def)
qed

lemma add_body_keeps:
  assumes run: "libcache_add_body c k src = Some (r, c')"
    and E: "E \<in> set (list c)" "cnodes c E = Some ud" "lock_counter ud \<noteq> 0"
    and sep: "entry_separate c E"
  shows "keeps_entry c c' E"
proof -
  note sepD = entry_separateD [OF sep E(2)]
  consider (same) "c' = c"
    | (evict) node l cache_data rr ht zeroed where
        "list_reverse_foreach (list c) (libcache_get_unlock_node c) = Some (Some node)"
        "list_remove (list c) node = Some l" "cnodes c node = Some cache_data"
        "hash_del (hash_table c) (Some (ud_key cache_data)) (hash_node_ptr cache_data)
         = Some (rr, ht)"
        "libcache_add_node
           (c\<lparr>list := l, hash_table := ht,
              cnodes := (cnodes c)(node \<mapsto> cache_data\<lparr>ud_key := zeroed\<rparr>)\<rparr>)
           node False k src = Some (r, c')"
    | (fresh) "libcache_add_node
              (c\<lparr>cnodes := (cnodes c)(cnext c \<mapsto>
                    \<lparr>ud_key = replicate (key_size c) 0, hash_node_ptr = None,
                     pool_element_ptr = None, lock_counter = 0\<rparr>),
                 cnext := cnext c + 1\<rparr>)
              (cnext c) True k src = Some (r, c')"
    using run by (auto simp: libcache_add_body_def split: option.splits if_splits)
  then show ?thesis
  proof cases
    case same
    then show ?thesis using E(1) by (simp add: keeps_entry_same)
  next
    case evict
    have ne: "node \<noteq> E"
      using eviction_skips_pinned [OF E(2) E(3)] evict(1) by auto
    have mem: "node \<in> set (list c)" and l: "l = remove1 node (list c)"
      using evict(2) by (auto simp: list_remove_def split: if_splits)
    let ?c1 = "c\<lparr>list := l, hash_table := ht,
              cnodes := (cnodes c)(node \<mapsto> cache_data\<lparr>ud_key := zeroed\<rparr>)\<rparr>"
    have k: "E \<in> set (list c') \<and> cnodes c' E = Some ud
         \<and> (\<forall>a. pool_element_ptr ud = Some a \<longrightarrow> payload (pool c') a = payload (pool ?c1) a)
         \<and> (\<forall>h. hash_node_ptr ud = Some h \<longrightarrow> hnodes (hash_table c') h = hnodes (hash_table ?c1) h)"
    proof (rule add_node_keeps [OF evict(5) ne])
      show "E \<in> set (list ?c1)" using E(1) ne l by simp
      show "cnodes ?c1 E = Some ud" using E(2) ne by simp
      show "if False then a \<notin> set (free_slots (pool ?c1))
            else \<forall>d. cnodes ?c1 node = Some d \<longrightarrow> pool_element_ptr d \<noteq> Some a"
        if "pool_element_ptr ud = Some a" for a
        using sepD(4) [OF mem ne evict(3) that] by simp
      show "h \<noteq> hnext (hash_table ?c1)" if "hash_node_ptr ud = Some h" for h
        using sepD(3) [OF that] hash_del_hnext [OF evict(4)] by simp
    qed
    have "hnodes ht h = hnodes (hash_table c) h" if "hash_node_ptr ud = Some h" for h
      using hash_del_hnodes [OF evict(4)] sepD(5) [OF mem ne evict(3) that] by simp
    then show ?thesis
      using k E(2) by (auto simp: keeps_entry_def split: option.splits)
  next
    case fresh
    have ne: "cnext c \<noteq> E" using sepD(1) by simp
    let ?c1 = "c\<lparr>cnodes := (cnodes c)(cnext c \<mapsto>
                    \<lparr>ud_key = replicate (key_size c) 0, hash_node_ptr = None,
                     pool_element_ptr = None, lock_counter = 0\<rparr>),
                 cnext := cnext c + 1\<rparr>"
    have k: "E \<in> set (list c') \<and> cnodes c' E = Some ud
         \<and> (\<forall>a. pool_element_ptr ud = Some a \<longrightarrow> payload (pool c') a = payload (pool ?c1) a)
         \<and> (\<forall>h. hash_node_ptr ud = Some h \<longrightarrow> hnodes (hash_table c') h = hnodes (hash_table ?c1) h)"
    proof (rule add_node_keeps [OF fresh ne])
      show "E \<in> set (list ?c1)" using E(1) by simp
      show "cnodes ?c1 E = Some ud" using E(2) ne by simp
      show "if True then a \<notin> set (free_slots (pool ?c1))
            else \<forall>d. cnodes ?c1 (cnext c) = Some d \<longrightarrow> pool_element_ptr d \<noteq> Some a"
        if "pool_element_ptr ud = Some a" for a
        using sepD(2) [OF that] by simp
      show "h \<noteq> hnext (hash_table ?c1)" if "hash_node_ptr ud = Some h" for h
        using sepD(3) [OF that] by simp
    qed
    then show ?thesis
      using E(2) by (auto simp: keeps_entry_def split: option.splits)
  qed
qed

lemma delete_by_key_body_keeps:
  assumes run: "libcache_delete_by_key_body c k = Some (r, c')"
    and E: "E \<in> set (list c)" "cnodes c E = Some ud" "lock_counter ud \<noteq> 0"
    and sep: "entry_separate c E"
  shows "keeps_entry c c' E"
proof -
  note sepD = entry_separateD [OF sep E(2)]
  note def = libcache_delete_by_key_body_def
  from run obtain hr where hf: "hash_find (hash_table c) (Some k) = Some hr"
    by (cases "hash_find (hash_table c) (Some k)") (simp_all add: def)
  show ?thesis
  proof (cases hr)
    case None
    with run hf have "c' = c" by (simp add: def)
    then show ?thesis using E(1) by (simp add: keeps_entry_same)
  next
    case (Some hash_node)
    note hf = hf [unfolded Some]
    from run hf obtain hdata where hd: "hnodes (hash_table c) hash_node = Some hdata"
      by (cases "hnodes (hash_table c) hash_node") (simp_all add: def)
    from run hf hd obtain n where n: "cache_node_ptr hdata = Some n"
      by (cases "cache_node_ptr hdata") (simp_all add: def)
    from run hf hd n obtain d where d: "cnodes c n = Some d"
      by (cases "cnodes c n") (simp_all add: def)
    show ?thesis
    proof (cases "lock_counter d > 0")
      case True
      with run hf hd n d have "c' = c" by (simp add: def)
      then show ?thesis using E(1) by (simp add: keeps_entry_same)
    next
      case False
      from run hf hd n d False obtain rr ht where
        del: "hash_del (hash_table c) (Some k) (hash_node_ptr d) = Some (rr, ht)"
        by (cases "hash_del (hash_table c) (Some k) (hash_node_ptr d)") (auto simp: def)
      from run hf hd n d False del obtain l where rm: "list_remove (list c) n = Some l"
        by (cases "list_remove (list c) n") (simp_all add: def)
      from run hf hd n d False del rm have c':
        "list c' = l" "hash_table c' = ht" "cnodes c' = (cnodes c)(n := None)"
        "pool c' = snd (libpool_free_element (pool c) (pool_element_ptr d))"
        by (auto simp: def)
      have "lock_counter d = 0" using False by (simp add: word_greater_zero_iff)
      then have ne: "n \<noteq> E" using d E(2) E(3) by auto
      have mem: "n \<in> set (list c)" and l: "l = remove1 n (list c)"
        using rm by (auto simp: list_remove_def split: if_splits)
      have "hnodes ht h = hnodes (hash_table c) h" if "hash_node_ptr ud = Some h" for h
        using hash_del_hnodes [OF del] sepD(5) [OF mem ne d that] by simp
      then show ?thesis
        using E ne l c'
        by (simp add: keeps_entry_def free_element_payload split: option.splits)
    qed
  qed
qed

lemma delete_by_key_keeps:
  assumes run: "libcache_delete_by_key (Some c) key = Some (r, Some c')"
    and E: "E \<in> set (list c)" "cnodes c E = Some ud" "lock_counter ud \<noteq> 0"
    and sep: "entry_separate c E"
  shows "keeps_entry c c' E"
proof (cases key)
  case None
  then show ?thesis using run E(1) by (simp add: libcache_delete_by_key_def keeps_entry_same)
next
  case (Some k)
  then have "libcache_delete_by_key_body c k = Some (r, c')"
    using run by (auto simp: libcache_delete_by_key_def split: option.splits)
  then show ?thesis using E sep by (rule delete_by_key_body_keeps)
qed

lemma delete_entry_keeps:
  assumes run: "libcache_delete_entry (Some c) e = Some (r, Some c')"
    and E: "E \<in> set (list c)" "cnodes c E = Some ud" "lock_counter ud \<noteq> 0"
    and sep: "entry_separate c E"
  shows "keeps_entry c c' E"
proof -
  consider (same) "c' = c"
    | (del) key where "libcache_delete_by_key (Some c) key = Some (r, Some c')"
    using run by (auto simp: libcache_delete_entry_def split: option.splits if_splits)
  then show ?thesis
  proof cases
    case same
    then show ?thesis using E(1) by (simp add: keeps_entry_same)
  next
    case del
    then show ?thesis using E sep by (rule delete_by_key_keeps)
  qed
qed

lemma add_keeps:
  assumes run: "libcache_add (Some c) key src = Some (r, Some c')"
    and E: "E \<in> set (list c)" "cnodes c E = Some ud" "lock_counter ud \<noteq> 0"
    and sep: "entry_separate c E"
  shows "keeps_entry c c' E"
proof (cases key)
  case None
  then show ?thesis using run E(1) by (simp add: libcache_add_def keeps_entry_same)
next
  case (Some k)
  then have "libcache_add_body c k src = Some (r, c')"
    using run by (auto simp: libcache_add_def split: option.splits)
  then show ?thesis using E sep by (rule add_body_keeps)
qed

lemma delete_by_key_locked:
  assumes "hash_find (hash_table c) (Some k) = Some (Some h)"
    and "hnodes (hash_table c) h = Some hdata" and "cache_node_ptr hdata = Some E"
    and "cnodes c E = Some ud" and "lock_counter ud \<noteq> 0"
  shows "libcache_delete_by_key (Some c) (Some k) = Some (LIBCACHE_LOCKED, Some c)"
  using assms
  by (simp add: libcache_delete_by_key_def libcache_delete_by_key_body_def word_greater_zero_iff)

lemma delete_entry_locked:
  assumes "pool_get_reserved_pointer (pool c) e = Some E"
    and "cnodes c E = Some ud" and "lock_counter ud \<noteq> 0"
  shows "libcache_delete_entry (Some c) e = Some (LIBCACHE_LOCKED, Some c)"
  using assms
  by (simp add: libcache_delete_entry_def word_greater_zero_iff)

text \<open>A resident node \<open>E\<close> with a pin-count above 0 that shares nothing is never the node
  the eviction scan stops at, is kept by every \<^verbatim>\<open>libcache_add\<close>, \<^verbatim>\<open>libcache_delete_by_key\<close>
  and \<^verbatim>\<open>libcache_delete_entry\<close> that returns, and makes \<^verbatim>\<open>libcache_delete_by_key\<close> return
  \<^verbatim>\<open>LIBCACHE_LOCKED\<close> whenever \<^verbatim>\<open>hash_find\<close> resolves the key to \<open>E\<close>, and
  \<^verbatim>\<open>libcache_delete_entry\<close> whenever the entry pointer resolves to \<open>E\<close>.\<close>
lemma pinned_entry_kept:
  assumes E: "E \<in> set (list c)" "cnodes c E = Some ud" "lock_counter ud \<noteq> 0"
    and sep: "entry_separate c E"
  shows "list_reverse_foreach (list c) (libcache_get_unlock_node c) \<noteq> Some (Some E)"
    and "libcache_add (Some c) key src = Some (p, Some c') \<Longrightarrow> keeps_entry c c' E"
    and "libcache_delete_by_key (Some c) key = Some (r, Some c') \<Longrightarrow> keeps_entry c c' E"
    and "libcache_delete_entry (Some c) e = Some (r, Some c') \<Longrightarrow> keeps_entry c c' E"
    and "hash_find (hash_table c) (Some k) = Some (Some h) \<Longrightarrow>
         hnodes (hash_table c) h = Some hdata \<Longrightarrow> cache_node_ptr hdata = Some E \<Longrightarrow>
         libcache_delete_by_key (Some c) (Some k) = Some (LIBCACHE_LOCKED, Some c)"
    and "pool_get_reserved_pointer (pool c) e = Some E \<Longrightarrow>
         libcache_delete_entry (Some c) e = Some (LIBCACHE_LOCKED, Some c)"
  using eviction_skips_pinned [OF E(2) E(3)] add_keeps [OF _ E sep]
    delete_by_key_keeps [OF _ E sep] delete_entry_keeps [OF _ E sep]
    delete_by_key_locked [OF _ _ _ E(2) E(3)] delete_entry_locked [OF _ E(2) E(3)]
  by blast+

lemma pinned_entry_kept_example:
  "0 \<in> set (list cache_C) \<and> entry_separate cache_C 0
   \<and> map_option lock_counter (cnodes cache_C 0) = Some 1
   \<and> (\<exists>c'. libcache_add (Some cache_C) (Some k7) (Some [5, 6, 7, 8]) = Some (Some 1004, Some c')
          \<and> keeps_entry cache_C c' 0)"
proof -
  have sep: "entry_separate cache_C 0"
    by (simp add: entry_separate_def cache_C_def hash_C_def)
  have E: "0 \<in> set (list cache_C)"
    "cnodes cache_C 0 = Some \<lparr>ud_key = k5, hash_node_ptr = Some 0, pool_element_ptr = Some 1000,
                         lock_counter = 1\<rparr>"
    by (simp_all add: cache_C_def)
  obtain c' where run: "libcache_add (Some cache_C) (Some k7) (Some [5, 6, 7, 8])
                        = Some (Some 1004, Some c')"
    by (simp add: cache_C_def cache_defs hash_defs pool_defs key_defs hash_C_def Let_def)
  from pinned_entry_kept(2) [OF E _ sep run] have "keeps_entry cache_C c' 0" by simp
  with run sep E show ?thesis by auto
qed

text \<open>
  Claim C3 says that no operation removes a pinned resident entry or overwrites its
  payload, that eviction never selects it, and that both deletes return \<^verbatim>\<open>Locked\<close> when
  applied to it.  The first parts hold (\<open>pinned_entry_kept\<close>).  The last does not hold
  for \<^verbatim>\<open>libcache_delete_by_key\<close>: in \<open>cache_D\<close>, the state after two adds, the entry of
  \<open>k0\<close> is resident with the pin-count 1, but \<^verbatim>\<open>hash_find\<close> gives up at the node of \<open>k5\<close>
  that precedes it in the bucket, and \<^verbatim>\<open>libcache_delete_by_key\<close> of \<open>k0\<close> returns
  \<^verbatim>\<open>LIBCACHE_NOT_FOUND\<close>.  \<^verbatim>\<open>libcache_delete_entry\<close> on the entry's payload address returns
  \<^verbatim>\<open>LIBCACHE_LOCKED\<close>.
\<close>
theorem delete_by_key_misses_pinned_entry:
  "libcache_add (Some cache_B) (Some k0) None = Some (Some 1004, Some cache_D)
   \<and> list cache_D = [1, 0]
   \<and> cnodes cache_D 1 = Some \<lparr>ud_key = k0, hash_node_ptr = Some 1,
                               pool_element_ptr = Some 1004, lock_counter = 1\<rparr>
   \<and> libcache_delete_by_key (Some cache_D) (Some k0) = Some (LIBCACHE_NOT_FOUND, Some cache_D)
   \<and> libcache_delete_entry (Some cache_D) (Some 1004) = Some (LIBCACHE_LOCKED, Some cache_D)"
  by (simp add: add_B_k0)
    (simp add: cache_D_def cache_defs hash_defs pool_defs key_defs hash_D_def Let_def)

end
